theory Spec2Isabelle
  imports Main
begin

section \<open>Exceptions and outcomes\<close>

text \<open>
  The exceptions of \<^verbatim>\<open>queues_stacks_arrays.py\<close>. The first four are raised by the
  source itself; the others are raised by the Python runtime and by \<^verbatim>\<open>ctypes\<close> on an
  access the source does not guard.
  \<^item> \<open>KeyError\<close>: \<^verbatim>\<open>pop\<close>/\<^verbatim>\<open>peek\<close> on an empty stack or queue (the spec's EmptyCollection);
  \<^item> \<open>AttributeError\<close>: \<^verbatim>\<open>LinkedQueue.remove\<close> with an index out of range (the spec's
    OutOfRange);
  \<^item> \<open>ValueError\<close>: \<^verbatim>\<open>DynamicArray.remove\<close> of an absent value (the spec's NotFound);
  \<^item> \<open>IndexError\<close>: \<^verbatim>\<open>DynamicArray.__getitem__\<close> out of range, and a \<^verbatim>\<open>ctypes\<close> array
    subscript out of range;
  \<^item> \<open>NoneDeref\<close>: the \<^verbatim>\<open>AttributeError\<close> Python raises for \<^verbatim>\<open>None.data\<close> or
    \<^verbatim>\<open>None.next\<close>, kept apart from the one \<^verbatim>\<open>remove\<close> raises on purpose;
  \<^item> \<open>NullObject\<close>: the \<^verbatim>\<open>ValueError\<close> of \<^verbatim>\<open>ctypes\<close> on reading a \<^verbatim>\<open>py_object\<close> slot
    that was never assigned, kept apart from the one \<^verbatim>\<open>DynamicArray.remove\<close> raises;
  \<^item> \<open>StopIteration\<close>: \<^verbatim>\<open>next\<close> on an exhausted iterator;
  \<^item> \<open>Dangling\<close>: a reference to an address the store does not hold. Python has no such
    reference; the constructor only makes the store lookups of the model total.

  A method returns its outcome together with the state of the object after the call, also
  when it raises: the state a failing call leaves behind is part of the model.
\<close>

datatype error =
    KeyError | AttributeError | ValueError | IndexError
  | NoneDeref | NullObject | StopIteration | Dangling

section \<open>Node and LinkedStack\<close>

text \<open>
  \<^verbatim>\<open>class Node: def __init__(self, data, next=None)\<close>. \<^verbatim>\<open>LinkedStack\<close> never assigns to a
  field of a node after creating it (\<^verbatim>\<open>push\<close> builds \<^verbatim>\<open>Node(item, self._items)\<close>, \<^verbatim>\<open>pop\<close>
  only moves \<^verbatim>\<open>self._items\<close>), so a stack's chain is an immutable value: a node holds
  its successor (\<open>nxt\<close> is the field \<^verbatim>\<open>next\<close>), and \<open>None\<close> is Python's \<^verbatim>\<open>None\<close>.
\<close>

datatype 'a node = Node (data: 'a) (nxt: "'a node option")

record 'a linked_stack =
  s_items :: "'a node option"
  s_size :: nat

text \<open>\<^verbatim>\<open>AbstractCollection.__len__\<close> and \<^verbatim>\<open>isEmpty\<close>, for a stack.\<close>

definition s_len :: "'a linked_stack \<Rightarrow> nat" where
  "s_len s = s_size s"

definition s_isEmpty :: "'a linked_stack \<Rightarrow> bool" where
  "s_isEmpty s \<longleftrightarrow> s_len s = 0"

text \<open>
  \<^verbatim>\<open>LinkedStack.__iter__\<close>: \<^verbatim>\<open>visitNodes\<close> descends to the end of the chain and appends
  to \<^verbatim>\<open>tempList\<close> on the way back, so the bottom item comes first.
\<close>

fun visitNodes :: "'a node option \<Rightarrow> 'a list \<Rightarrow> 'a list" where
  "visitNodes None tempList = tempList"
| "visitNodes (Some (Node d nx)) tempList = visitNodes nx tempList @ [d]"

definition s_iter :: "'a linked_stack \<Rightarrow> 'a list" where
  "s_iter s = visitNodes (s_items s) []"

definition s_peek :: "'a linked_stack \<Rightarrow> (error + 'a) \<times> 'a linked_stack" where
  "s_peek s =
     (if s_isEmpty s then (Inl KeyError, s)
      else case s_items s of
             None \<Rightarrow> (Inl NoneDeref, s)
           | Some nd \<Rightarrow> (Inr (data nd), s))"

definition s_clear :: "'a linked_stack \<Rightarrow> 'a linked_stack" where
  "s_clear s = s\<lparr>s_size := 0, s_items := None\<rparr>"

definition push :: "'a linked_stack \<Rightarrow> 'a \<Rightarrow> 'a linked_stack" where
  "push s item = s\<lparr>s_items := Some (Node item (s_items s)), s_size := s_size s + 1\<rparr>"

text \<open>
  \<^verbatim>\<open>LinkedStack.pop\<close>. \<^verbatim>\<open>self._size -= 1\<close> runs only after \<^verbatim>\<open>isEmpty\<close> was false, so the
  size stays a natural number.
\<close>

definition s_pop :: "'a linked_stack \<Rightarrow> (error + 'a) \<times> 'a linked_stack" where
  "s_pop s =
     (if s_isEmpty s then (Inl KeyError, s)
      else case s_items s of
             None \<Rightarrow> (Inl NoneDeref, s)
           | Some nd \<Rightarrow> (Inr (data nd), s\<lparr>s_items := nxt nd, s_size := s_size s - 1\<rparr>))"

text \<open>\<^verbatim>\<open>AbstractStack.add\<close> routes to \<^verbatim>\<open>push\<close>.\<close>

definition s_add :: "'a linked_stack \<Rightarrow> 'a \<Rightarrow> (error + unit) \<times> 'a linked_stack" where
  "s_add s item = (Inr (), push s item)"

text \<open>The stack \<^verbatim>\<open>LinkedStack()\<close> builds: \<^verbatim>\<open>_items = None\<close>, then \<^verbatim>\<open>_size = 0\<close>.\<close>

definition LinkedStack_new :: "'a linked_stack" where
  "LinkedStack_new = \<lparr>s_items = None, s_size = 0\<rparr>"

text \<open>Caller loops: push a list of items in order, pop \<open>n\<close> times collecting the results.\<close>

fun push_all :: "'a linked_stack \<Rightarrow> 'a list \<Rightarrow> 'a linked_stack" where
  "push_all s [] = s"
| "push_all s (x # xs) = push_all (push s x) xs"

fun s_pop_n :: "nat \<Rightarrow> 'a linked_stack \<Rightarrow> (error + 'a list) \<times> 'a linked_stack" where
  "s_pop_n 0 s = (Inr [], s)"
| "s_pop_n (Suc k) s =
     (case s_pop s of
        (Inl e, s') \<Rightarrow> (Inl e, s')
      | (Inr x, s') \<Rightarrow>
          (case s_pop_n k s' of
             (Inl e, s'') \<Rightarrow> (Inl e, s'')
           | (Inr xs, s'') \<Rightarrow> (Inr (x # xs), s'')))"

text \<open>
  The representation invariant of a stack: the size counter is the length of the chain.
\<close>

fun chain_items :: "'a node option \<Rightarrow> 'a list" where
  "chain_items None = []"
| "chain_items (Some (Node d nx)) = d # chain_items nx"

definition stack_inv :: "'a linked_stack \<Rightarrow> bool" where
  "stack_inv s \<longleftrightarrow> s_size s = length (chain_items (s_items s))"

section \<open>LinkedQueue\<close>

text \<open>
  \<^verbatim>\<open>LinkedQueue\<close> assigns to the \<^verbatim>\<open>next\<close> field of nodes it already holds
  (\<^verbatim>\<open>self._rear.next = newNode\<close>, \<^verbatim>\<open>probe.next = probe.next.next\<close>) and reaches one node
  through two references (\<^verbatim>\<open>_rear\<close> and the chain from \<^verbatim>\<open>_front\<close>), so its nodes live in
  an explicit store: a reference is an address, \<open>None\<close> is Python's \<^verbatim>\<open>None\<close>, and
  \<^verbatim>\<open>Node(item, None)\<close> takes the next unused address \<open>q_fresh\<close>. A node that is no longer
  reachable stays in the store.
\<close>

record 'a qnode =
  n_data :: 'a
  n_next :: "nat option"

record 'a linked_queue =
  q_front :: "nat option"
  q_rear :: "nat option"
  q_size :: nat
  q_store :: "nat \<Rightarrow> 'a qnode option"
  q_fresh :: nat

text \<open>Reading a field through a reference: \<^verbatim>\<open>p.data\<close>, \<^verbatim>\<open>p.next\<close>.\<close>

definition deref :: "(nat \<Rightarrow> 'a qnode option) \<Rightarrow> nat option \<Rightarrow> error + (nat \<times> 'a qnode)" where
  "deref h p =
     (case p of
        None \<Rightarrow> Inl NoneDeref
      | Some a \<Rightarrow> (case h a of None \<Rightarrow> Inl Dangling | Some c \<Rightarrow> Inr (a, c)))"

definition q_len :: "'a linked_queue \<Rightarrow> nat" where
  "q_len q = q_size q"

definition q_isEmpty :: "'a linked_queue \<Rightarrow> bool" where
  "q_isEmpty q \<longleftrightarrow> q_len q = 0"

text \<open>The queue \<^verbatim>\<open>LinkedQueue()\<close> builds.\<close>

definition LinkedQueue_new :: "'a linked_queue" where
  "LinkedQueue_new =
     \<lparr>q_front = None, q_rear = None, q_size = 0, q_store = (\<lambda>a. None), q_fresh = 0\<rparr>"

text \<open>
  \<^verbatim>\<open>LinkedQueue.__iter__\<close>: the generator walks \<^verbatim>\<open>cursor = cursor.next\<close> until \<^verbatim>\<open>None\<close>. The
  model gives the list of all items it yields; \<open>None\<close> when the walk yields no such list
  (a cyclic chain, on which the loop never ends, or a reference outside the store).
\<close>

partial_function (option) iter_from :: "(nat \<Rightarrow> 'a qnode option) \<Rightarrow> nat option \<Rightarrow> 'a list option" where
  "iter_from h cursor =
     (case cursor of
        None \<Rightarrow> Some []
      | Some a \<Rightarrow>
          (case h a of
             None \<Rightarrow> None
           | Some c \<Rightarrow> Option.bind (iter_from h (n_next c)) (\<lambda>xs. Some (n_data c # xs))))"

declare iter_from.simps [code]

definition q_iter :: "'a linked_queue \<Rightarrow> 'a list option" where
  "q_iter q = iter_from (q_store q) (q_front q)"

definition q_peek :: "'a linked_queue \<Rightarrow> (error + 'a) \<times> 'a linked_queue" where
  "q_peek q =
     (if q_isEmpty q then (Inl KeyError, q)
      else case deref (q_store q) (q_front q) of
             Inl e \<Rightarrow> (Inl e, q)
           | Inr (f, c) \<Rightarrow> (Inr (n_data c), q))"

definition q_clear :: "'a linked_queue \<Rightarrow> 'a linked_queue" where
  "q_clear q = q\<lparr>q_size := 0, q_front := None, q_rear := None\<rparr>"

text \<open>
  \<^verbatim>\<open>LinkedQueue.add\<close>: \<^verbatim>\<open>newNode = Node(item, None)\<close>; on an empty queue the node becomes
  the front, otherwise it is stored into \<^verbatim>\<open>self._rear.next\<close>; then \<^verbatim>\<open>_rear\<close> and \<^verbatim>\<open>_size\<close>.
\<close>

definition q_add :: "'a linked_queue \<Rightarrow> 'a \<Rightarrow> (error + unit) \<times> 'a linked_queue" where
  "q_add q item =
     (let newNode = q_fresh q;
          q1 = q\<lparr>q_store := (q_store q)(newNode \<mapsto> \<lparr>n_data = item, n_next = None\<rparr>),
                 q_fresh := newNode + 1\<rparr>
      in if q_isEmpty q1
         then (Inr (), q1\<lparr>q_front := Some newNode, q_rear := Some newNode,
                            q_size := q_size q1 + 1\<rparr>)
         else (case deref (q_store q1) (q_rear q1) of
                 Inl e \<Rightarrow> (Inl e, q1)
               | Inr (r, c) \<Rightarrow>
                   (Inr (), q1\<lparr>q_store := (q_store q1)(r \<mapsto> c\<lparr>n_next := Some newNode\<rparr>),
                                 q_rear := Some newNode, q_size := q_size q1 + 1\<rparr>)))"

text \<open>
  \<^verbatim>\<open>LinkedQueue.pop\<close>: after advancing \<^verbatim>\<open>_front\<close>, \<^verbatim>\<open>_rear\<close> is reset when \<^verbatim>\<open>_front\<close> has
  become \<^verbatim>\<open>None\<close>.
\<close>

definition q_pop :: "'a linked_queue \<Rightarrow> (error + 'a) \<times> 'a linked_queue" where
  "q_pop q =
     (if q_isEmpty q then (Inl KeyError, q)
      else case deref (q_store q) (q_front q) of
             Inl e \<Rightarrow> (Inl e, q)
           | Inr (f, c) \<Rightarrow>
               (let q1 = q\<lparr>q_front := n_next c\<rparr>;
                    q2 = (if q_front q1 = None then q1\<lparr>q_rear := None\<rparr> else q1)
                in (Inr (n_data c), q2\<lparr>q_size := q_size q2 - 1\<rparr>)))"

text \<open>The loop \<^verbatim>\<open>while index > 1: probe = probe.next; index -= 1\<close> of \<^verbatim>\<open>remove\<close>.\<close>

function probe_loop :: "(nat \<Rightarrow> 'a qnode option) \<Rightarrow> nat option \<Rightarrow> int \<Rightarrow> error + nat option" where
  "probe_loop h probe index =
     (if index > 1
      then (case deref h probe of
              Inl e \<Rightarrow> Inl e
            | Inr (a, c) \<Rightarrow> probe_loop h (n_next c) (index - 1))
      else Inr probe)"
  by pat_completeness auto
termination
  by (relation "measure (\<lambda>(h, probe, index). nat index)") auto

declare probe_loop.simps [simp del]

text \<open>
  \<^verbatim>\<open>LinkedQueue.remove\<close>. The range check comes first. For index 0 the front is advanced;
  otherwise \<^verbatim>\<open>probe\<close> stops at the node before the target and
  \<^verbatim>\<open>probe.next = probe.next.next\<close> splices the target out. Then \<^verbatim>\<open>_size -= 1\<close>, and
  \<^verbatim>\<open>_rear\<close> is reset only \<^verbatim>\<open>if self.isEmpty()\<close>: no other statement of \<^verbatim>\<open>remove\<close>
  assigns \<^verbatim>\<open>_rear\<close>.
\<close>

definition q_remove :: "'a linked_queue \<Rightarrow> int \<Rightarrow> (error + 'a) \<times> 'a linked_queue" where
  "q_remove q index =
     (if index < 0 \<or> index \<ge> int (q_len q) then (Inl AttributeError, q)
      else
        let r =
          (if index = 0
           then (case deref (q_store q) (q_front q) of
                   Inl e \<Rightarrow> Inl e
                 | Inr (f, c) \<Rightarrow> Inr (n_data c, q\<lparr>q_front := n_next c\<rparr>))
           else (case probe_loop (q_store q) (q_front q) index of
                   Inl e \<Rightarrow> Inl e
                 | Inr probe \<Rightarrow>
                     (case deref (q_store q) probe of
                        Inl e \<Rightarrow> Inl e
                      | Inr (p, pc) \<Rightarrow>
                          (case deref (q_store q) (n_next pc) of
                             Inl e \<Rightarrow> Inl e
                           | Inr (t, tc) \<Rightarrow>
                               Inr (n_data tc,
                                    q\<lparr>q_store := (q_store q)(p \<mapsto> pc\<lparr>n_next := n_next tc\<rparr>)\<rparr>)))))
        in case r of
             Inl e \<Rightarrow> (Inl e, q)
           | Inr (oldItem, q1) \<Rightarrow>
               (let q2 = q1\<lparr>q_size := q_size q1 - 1\<rparr>;
                    q3 = (if q_isEmpty q2 then q2\<lparr>q_rear := None\<rparr> else q2)
                in (Inr oldItem, q3)))"

text \<open>Caller loop: pop \<open>n\<close> times collecting the results.\<close>

fun q_pop_n :: "nat \<Rightarrow> 'a linked_queue \<Rightarrow> (error + 'a list) \<times> 'a linked_queue" where
  "q_pop_n 0 q = (Inr [], q)"
| "q_pop_n (Suc k) q =
     (case q_pop q of
        (Inl e, q') \<Rightarrow> (Inl e, q')
      | (Inr x, q') \<Rightarrow>
          (case q_pop_n k q' of
             (Inl e, q'') \<Rightarrow> (Inl e, q'')
           | (Inr xs, q'') \<Rightarrow> (Inr (x # xs), q'')))"

text \<open>
  The chain of a queue: \<open>path h p as\<close> says that following \<^verbatim>\<open>next\<close> from \<open>p\<close> visits
  exactly the addresses \<open>as\<close> and then reaches \<^verbatim>\<open>None\<close>. \<open>is_queue q as\<close> is the
  representation invariant of the spec's data model with the chain named: the chain from
  \<^verbatim>\<open>_front\<close> is \<open>as\<close>, \<^verbatim>\<open>_size\<close> is its length, \<^verbatim>\<open>_rear\<close> is its last node (\<^verbatim>\<open>None\<close> when
  it is empty), and all its nodes are allocated.
\<close>

fun path :: "(nat \<Rightarrow> 'a qnode option) \<Rightarrow> nat option \<Rightarrow> nat list \<Rightarrow> bool" where
  "path h p [] \<longleftrightarrow> p = None"
| "path h p (a # as) \<longleftrightarrow>
     p = Some a \<and> (case h a of None \<Rightarrow> False | Some c \<Rightarrow> path h (n_next c) as)"

definition datas :: "(nat \<Rightarrow> 'a qnode option) \<Rightarrow> nat list \<Rightarrow> 'a list" where
  "datas h as = map (\<lambda>a. n_data (the (h a))) as"

definition is_queue :: "'a linked_queue \<Rightarrow> nat list \<Rightarrow> bool" where
  "is_queue q as \<longleftrightarrow>
     path (q_store q) (q_front q) as \<and> distinct as \<and> q_size q = length as \<and>
     q_rear q = (if as = [] then None else Some (last as)) \<and>
     list_all (\<lambda>a. a < q_fresh q) as"

definition queue_inv :: "'a linked_queue \<Rightarrow> bool" where
  "queue_inv q \<longleftrightarrow> (\<exists>as. is_queue q as)"

section \<open>AbstractCollection\<close>

text \<open>
  What \<^verbatim>\<open>AbstractCollection\<close> sees of a concrete collection: \<^verbatim>\<open>type(self)\<close>,
  \<^verbatim>\<open>len(self)\<close> and the items \<^verbatim>\<open>iter(self)\<close> yields.
\<close>

datatype 'a collection = Stack "'a linked_stack" | Queue "'a linked_queue"

datatype kind = LinkedStack | LinkedQueue

fun type_of :: "'a collection \<Rightarrow> kind" where
  "type_of (Stack s) = LinkedStack"
| "type_of (Queue q) = LinkedQueue"

fun len :: "'a collection \<Rightarrow> nat" where
  "len (Stack s) = s_len s"
| "len (Queue q) = q_len q"

fun iter :: "'a collection \<Rightarrow> 'a list option" where
  "iter (Stack s) = Some (s_iter s)"
| "iter (Queue q) = q_iter q"

text \<open>
  The \<^verbatim>\<open>sourceCollection\<close> of a constructor: a Python list or a collection. Its truth value
  is what \<^verbatim>\<open>if sourceCollection:\<close> tests (for a collection Python falls back on
  \<^verbatim>\<open>__len__\<close>).
\<close>

datatype 'a source = PyList "'a list" | Coll "'a collection"

fun truth :: "'a source \<Rightarrow> bool" where
  "truth (PyList xs) \<longleftrightarrow> xs \<noteq> []"
| "truth (Coll c) \<longleftrightarrow> len c \<noteq> 0"

fun source_items :: "'a source \<Rightarrow> 'a list option" where
  "source_items (PyList xs) = Some xs"
| "source_items (Coll c) = iter c"

text \<open>\<^verbatim>\<open>for item in sourceCollection: self.add(item)\<close>, stopping at the first exception.\<close>

fun add_all :: "('s \<Rightarrow> 'a \<Rightarrow> (error + unit) \<times> 's) \<Rightarrow> 's \<Rightarrow> 'a list \<Rightarrow> (error + unit) \<times> 's" where
  "add_all add self [] = (Inr (), self)"
| "add_all add self (item # rest) =
     (case add self item of
        (Inl e, self') \<Rightarrow> (Inl e, self')
      | (Inr u, self') \<Rightarrow> add_all add self' rest)"

text \<open>
  \<^verbatim>\<open>AbstractCollection.__init__\<close>, given the \<^verbatim>\<open>add\<close> of the concrete class and the object
  with its size already 0. \<open>None\<close> when iterating the source yields no list.
\<close>

definition AbstractCollection_init ::
    "('s \<Rightarrow> 'a \<Rightarrow> (error + unit) \<times> 's) \<Rightarrow> 's \<Rightarrow> 'a source option \<Rightarrow> ((error + unit) \<times> 's) option" where
  "AbstractCollection_init add self sourceCollection =
     (case sourceCollection of
        None \<Rightarrow> Some (Inr (), self)
      | Some src \<Rightarrow>
          if truth src
          then (case source_items src of
                  None \<Rightarrow> None
                | Some xs \<Rightarrow> Some (add_all add self xs))
          else Some (Inr (), self))"

definition LinkedStack_init :: "'a source option \<Rightarrow> ((error + unit) \<times> 'a linked_stack) option" where
  "LinkedStack_init sourceCollection =
     AbstractCollection_init s_add LinkedStack_new sourceCollection"

definition LinkedQueue_init :: "'a source option \<Rightarrow> ((error + unit) \<times> 'a linked_queue) option" where
  "LinkedQueue_init sourceCollection =
     AbstractCollection_init q_add LinkedQueue_new sourceCollection"

text \<open>
  \<^verbatim>\<open>AbstractCollection.__eq__\<close>. The loop \<^verbatim>\<open>for item in self: if item != next(otherIter)\<close>
  runs over the items of \<^verbatim>\<open>self\<close>; \<^verbatim>\<open>next\<close> on the exhausted iterator of \<^verbatim>\<open>other\<close> raises
  \<^verbatim>\<open>StopIteration\<close>, which \<^verbatim>\<open>__eq__\<close> does not catch. Items are compared with the
  equality of their type.
\<close>

fun eq_loop :: "'a list \<Rightarrow> 'a list \<Rightarrow> error + bool" where
  "eq_loop [] otherIter = Inr True"
| "eq_loop (item # rest) [] = Inl StopIteration"
| "eq_loop (item # rest) (y # otherIter) =
     (if item \<noteq> y then Inr False else eq_loop rest otherIter)"

text \<open>
  An operand is an object: its identity (what \<^verbatim>\<open>self is other\<close> compares) and its state.
  The result is \<open>None\<close> when iterating an operand yields no list.
\<close>

definition coll_eq :: "nat \<times> 'a collection \<Rightarrow> nat \<times> 'a collection \<Rightarrow> (error + bool) option" where
  "coll_eq self other =
     (if fst self = fst other then Some (Inr True)
      else if type_of (snd self) \<noteq> type_of (snd other) \<or> len (snd self) \<noteq> len (snd other)
      then Some (Inr False)
      else (case iter (snd other) of
              None \<Rightarrow> None
            | Some otherIter \<Rightarrow>
                (case iter (snd self) of
                   None \<Rightarrow> None
                 | Some items \<Rightarrow> Some (eq_loop items otherIter))))"

section \<open>DynamicArray\<close>

text \<open>
  A Python value stored in a \<^verbatim>\<open>DynamicArray\<close> is \<^verbatim>\<open>None\<close> or another object:
  \<^verbatim>\<open>remove\<close> itself writes \<^verbatim>\<open>None\<close>. A slot of the \<^verbatim>\<open>ctypes\<close> array \<^verbatim>\<open>(c * py_object)()\<close>
  holds a value or is still unassigned (\<open>None\<close> of the option type: a NULL pointer).
\<close>

datatype 'a pyobj = PyNone | Obj 'a

type_synonym 'a slots = "'a pyobj option list"

definition make_array :: "nat \<Rightarrow> 'a slots" where
  "make_array c = replicate c None"

text \<open>
  Subscripts of a \<^verbatim>\<open>ctypes\<close> array (the library is not part of the repository): a negative
  index counts from the end, an index out of range raises \<^verbatim>\<open>IndexError\<close>, and reading an
  unassigned \<^verbatim>\<open>py_object\<close> slot raises \<^verbatim>\<open>ValueError\<close>.
\<close>

definition arr_index :: "'a slots \<Rightarrow> int \<Rightarrow> error + nat" where
  "arr_index A i =
     (let j = (if i < 0 then i + int (length A) else i)
      in if 0 \<le> j \<and> j < int (length A) then Inr (nat j) else Inl IndexError)"

definition arr_get :: "'a slots \<Rightarrow> int \<Rightarrow> error + 'a pyobj" where
  "arr_get A i =
     (case arr_index A i of
        Inl e \<Rightarrow> Inl e
      | Inr j \<Rightarrow> (case A ! j of None \<Rightarrow> Inl NullObject | Some v \<Rightarrow> Inr v))"

definition arr_set :: "'a slots \<Rightarrow> int \<Rightarrow> 'a pyobj \<Rightarrow> error + 'a slots" where
  "arr_set A i v =
     (case arr_index A i of
        Inl e \<Rightarrow> Inl e
      | Inr j \<Rightarrow> Inr (A[j := Some v]))"

record 'a dynamic_array =
  da_n :: nat
  da_capacity :: nat
  da_A :: "'a slots"

definition DynamicArray_new :: "'a dynamic_array" where
  "DynamicArray_new = \<lparr>da_n = 0, da_capacity = 1, da_A = make_array 1\<rparr>"

definition da_len :: "'a dynamic_array \<Rightarrow> nat" where
  "da_len d = da_n d"

definition getitem :: "'a dynamic_array \<Rightarrow> int \<Rightarrow> error + 'a pyobj" where
  "getitem d k =
     (if \<not> (0 \<le> k \<and> k < int (da_n d)) then Inl IndexError else arr_get (da_A d) k)"

text \<open>
  \<^verbatim>\<open>_resize(c)\<close>: the loop \<^verbatim>\<open>for k in range(self._n): B[k] = self._A[k]\<close> fills the new
  array \<^verbatim>\<open>B\<close>; the object changes only after the loop.
\<close>

fun copy_loop :: "'a slots \<Rightarrow> 'a slots \<Rightarrow> nat list \<Rightarrow> error + 'a slots" where
  "copy_loop A B [] = Inr B"
| "copy_loop A B (k # ks) =
     (case arr_get A (int k) of
        Inl e \<Rightarrow> Inl e
      | Inr v \<Rightarrow>
          (case arr_set B (int k) v of
             Inl e \<Rightarrow> Inl e
           | Inr B' \<Rightarrow> copy_loop A B' ks))"

definition resize :: "'a dynamic_array \<Rightarrow> nat \<Rightarrow> (error + unit) \<times> 'a dynamic_array" where
  "resize d c =
     (case copy_loop (da_A d) (make_array c) [0..<da_n d] of
        Inl e \<Rightarrow> (Inl e, d)
      | Inr B \<Rightarrow> (Inr (), d\<lparr>da_A := B, da_capacity := c\<rparr>))"

text \<open>
  The first statement of \<^verbatim>\<open>append\<close> and of \<^verbatim>\<open>insert\<close>:
  \<^verbatim>\<open>if self._n == self._capacity: self._resize(2 * self._capacity)\<close>.
\<close>

definition resize_if_full :: "'a dynamic_array \<Rightarrow> (error + unit) \<times> 'a dynamic_array" where
  "resize_if_full d =
     (if da_n d = da_capacity d then resize d (2 * da_capacity d) else (Inr (), d))"

definition da_append :: "'a dynamic_array \<Rightarrow> 'a pyobj \<Rightarrow> (error + unit) \<times> 'a dynamic_array" where
  "da_append d obj =
     (case resize_if_full d of
        (Inl e, d1) \<Rightarrow> (Inl e, d1)
      | (Inr u, d1) \<Rightarrow>
          (case arr_set (da_A d1) (int (da_n d1)) obj of
             Inl e \<Rightarrow> (Inl e, d1)
           | Inr A' \<Rightarrow> (Inr (), d1\<lparr>da_A := A', da_n := da_n d1 + 1\<rparr>)))"

text \<open>
  \<^verbatim>\<open>range(a, b, -1)\<close> is \<open>a, a - 1, .., b + 1\<close>. The loop of \<^verbatim>\<open>insert\<close>,
  \<^verbatim>\<open>for j in range(self._n, k, -1): self._A[j] = self._A[j - 1]\<close>, writes into the array in
  place, so an exception leaves the slots shifted so far.
\<close>

definition range_down :: "int \<Rightarrow> int \<Rightarrow> int list" where
  "range_down a b = rev [b + 1..a]"

fun shift_right :: "'a slots \<Rightarrow> int list \<Rightarrow> (error + unit) \<times> 'a slots" where
  "shift_right A [] = (Inr (), A)"
| "shift_right A (j # js) =
     (case arr_get A (j - 1) of
        Inl e \<Rightarrow> (Inl e, A)
      | Inr v \<Rightarrow>
          (case arr_set A j v of
             Inl e \<Rightarrow> (Inl e, A)
           | Inr A' \<Rightarrow> shift_right A' js))"

definition da_insert ::
    "'a dynamic_array \<Rightarrow> int \<Rightarrow> 'a pyobj \<Rightarrow> (error + unit) \<times> 'a dynamic_array" where
  "da_insert d k v =
     (case resize_if_full d of
        (Inl e, d1) \<Rightarrow> (Inl e, d1)
      | (Inr u, d1) \<Rightarrow>
          (case shift_right (da_A d1) (range_down (int (da_n d1)) k) of
             (Inl e, A1) \<Rightarrow> (Inl e, d1\<lparr>da_A := A1\<rparr>)
           | (Inr u', A1) \<Rightarrow>
               (case arr_set A1 k v of
                  Inl e \<Rightarrow> (Inl e, d1\<lparr>da_A := A1\<rparr>)
                | Inr A2 \<Rightarrow> (Inr (), d1\<lparr>da_A := A2, da_n := da_n d1 + 1\<rparr>))))"

text \<open>
  \<^verbatim>\<open>remove\<close>: the scan \<^verbatim>\<open>for k in range(self._n)\<close>; at the first \<^verbatim>\<open>self._A[k] == value\<close>
  the loop \<^verbatim>\<open>for j in range(k, self._n - 1): self._A[j] = self._A[j + 1]\<close> closes the gap,
  the last slot gets \<^verbatim>\<open>None\<close>, \<^verbatim>\<open>_n\<close> is decremented and the method returns; after a scan
  without a match it raises \<^verbatim>\<open>ValueError\<close>. \<^verbatim>\<open>_n\<close> is at least 1 inside the scan.
\<close>

fun shift_left :: "'a slots \<Rightarrow> nat list \<Rightarrow> (error + unit) \<times> 'a slots" where
  "shift_left A [] = (Inr (), A)"
| "shift_left A (j # js) =
     (case arr_get A (int j + 1) of
        Inl e \<Rightarrow> (Inl e, A)
      | Inr v \<Rightarrow>
          (case arr_set A (int j) v of
             Inl e \<Rightarrow> (Inl e, A)
           | Inr A' \<Rightarrow> shift_left A' js))"

fun remove_scan ::
    "'a dynamic_array \<Rightarrow> 'a pyobj \<Rightarrow> nat list \<Rightarrow> (error + unit) \<times> 'a dynamic_array" where
  "remove_scan d v [] = (Inl ValueError, d)"
| "remove_scan d v (k # ks) =
     (case arr_get (da_A d) (int k) of
        Inl e \<Rightarrow> (Inl e, d)
      | Inr x \<Rightarrow>
          if x = v
          then (case shift_left (da_A d) [k..<da_n d - 1] of
                  (Inl e, A1) \<Rightarrow> (Inl e, d\<lparr>da_A := A1\<rparr>)
                | (Inr u, A1) \<Rightarrow>
                    (case arr_set A1 (int (da_n d) - 1) PyNone of
                       Inl e \<Rightarrow> (Inl e, d\<lparr>da_A := A1\<rparr>)
                     | Inr A2 \<Rightarrow> (Inr (), d\<lparr>da_A := A2, da_n := da_n d - 1\<rparr>)))
          else remove_scan d v ks)"

definition da_remove :: "'a dynamic_array \<Rightarrow> 'a pyobj \<Rightarrow> (error + unit) \<times> 'a dynamic_array" where
  "da_remove d v = remove_scan d v [0..<da_n d]"

text \<open>
  The items of a dynamic array are its first \<open>da_n\<close> slots. The representation invariant:
  the backing array has \<open>da_capacity\<close> slots, \<open>da_n\<close> of them are in use, and every slot in
  use holds a value.
\<close>

definition da_items :: "'a dynamic_array \<Rightarrow> 'a pyobj list" where
  "da_items d = map the (take (da_n d) (da_A d))"

definition da_inv :: "'a dynamic_array \<Rightarrow> bool" where
  "da_inv d \<longleftrightarrow>
     length (da_A d) = da_capacity d \<and> da_n d \<le> da_capacity d \<and> 0 < da_capacity d \<and>
     list_all (\<lambda>s. s \<noteq> None) (take (da_n d) (da_A d))"

text \<open>
  Sequences of public operations: the state after one operation (also when it raises), the
  documented assumption of \<^verbatim>\<open>insert\<close> (\<^verbatim>\<open>0 <= k <= n\<close>), and the states a sequence visits.
\<close>

datatype 'a da_op = Append "'a pyobj" | Insert int "'a pyobj" | Remove "'a pyobj" | GetItem int

fun da_step :: "'a dynamic_array \<Rightarrow> 'a da_op \<Rightarrow> 'a dynamic_array" where
  "da_step d (Append v) = snd (da_append d v)"
| "da_step d (Insert k v) = snd (da_insert d k v)"
| "da_step d (Remove v) = snd (da_remove d v)"
| "da_step d (GetItem k) = d"

fun da_pre :: "'a dynamic_array \<Rightarrow> 'a da_op \<Rightarrow> bool" where
  "da_pre d (Insert k v) \<longleftrightarrow> 0 \<le> k \<and> k \<le> int (da_n d)"
| "da_pre d other \<longleftrightarrow> True"

fun da_valid :: "'a dynamic_array \<Rightarrow> 'a da_op list \<Rightarrow> bool" where
  "da_valid d [] \<longleftrightarrow> True"
| "da_valid d (x # ops) \<longleftrightarrow> da_pre d x \<and> da_valid (da_step d x) ops"

fun da_trace :: "'a dynamic_array \<Rightarrow> 'a da_op list \<Rightarrow> 'a dynamic_array list" where
  "da_trace d [] = [d]"
| "da_trace d (x # ops) = d # da_trace (da_step d x) ops"

text \<open>Whether an operation finds the array full and therefore grows it.\<close>

fun grows :: "'a dynamic_array \<Rightarrow> 'a da_op \<Rightarrow> bool" where
  "grows d (Append v) \<longleftrightarrow> da_n d = da_capacity d"
| "grows d (Insert k v) \<longleftrightarrow> da_n d = da_capacity d"
| "grows d other \<longleftrightarrow> False"

text \<open>A sequence of operations and an array to run the theorems on.\<close>

definition example_ops :: "nat da_op list" where
  "example_ops =
     [Append (Obj 1), Append (Obj 2), Append (Obj 3), Insert 1 (Obj 9), Remove (Obj 2), GetItem 0]"

definition example_array :: "nat dynamic_array" where
  "example_array = foldl da_step DynamicArray_new [Append (Obj 1), Append (Obj 2), Append (Obj 1)]"

text \<open>A stack and queues to run the theorems on.\<close>

definition example_stack :: "nat linked_stack" where
  "example_stack = push_all LinkedStack_new [1, 2, 3]"

definition example_queue :: "nat linked_queue" where
  "example_queue = snd (add_all q_add LinkedQueue_new [1, 2])"

text \<open>
  The queue after \<^verbatim>\<open>add(1); add(2); remove(1)\<close>, the same queue after a further \<^verbatim>\<open>add(3)\<close>,
  and the queue after \<^verbatim>\<open>add(1); add(5)\<close>.
\<close>

definition stale_queue :: "nat linked_queue" where
  "stale_queue = snd (q_remove example_queue 1)"

definition lossy_queue :: "nat linked_queue" where
  "lossy_queue = snd (q_add stale_queue 3)"

definition other_queue :: "nat linked_queue" where
  "other_queue = snd (add_all q_add LinkedQueue_new [1, 5])"

section \<open>LinkedStack: proofs\<close>

lemma push_all_chain:
  "chain_items (s_items (push_all s xs)) = rev xs @ chain_items (s_items s)"
  by (induction xs arbitrary: s) (simp_all add: push_def)


lemma stack_inv_new: "stack_inv LinkedStack_new"
  by (simp add: stack_inv_def LinkedStack_new_def)

lemma stack_inv_push: "stack_inv s \<Longrightarrow> stack_inv (push s x)"
  by (simp add: stack_inv_def push_def)

lemma stack_inv_push_all: "stack_inv s \<Longrightarrow> stack_inv (push_all s xs)"
  by (induction xs arbitrary: s) (simp_all add: stack_inv_push)

lemma stack_inv_clear: "stack_inv (s_clear s)"
  by (simp add: stack_inv_def s_clear_def)

lemma stack_inv_pop: "stack_inv s \<Longrightarrow> stack_inv (snd (s_pop s))"
  by (cases "s_items s"; cases "the (s_items s)")
     (auto simp: stack_inv_def s_pop_def s_isEmpty_def s_len_def)

lemma s_pop_n_chain:
  "stack_inv s \<Longrightarrow> chain_items (s_items s) = xs @ ys \<Longrightarrow>
   \<exists>s'. s_pop_n (length xs) s = (Inr xs, s') \<and> chain_items (s_items s') = ys \<and> stack_inv s'"
proof (induction xs arbitrary: s)
  case Nil
  then show ?case by simp
next
  case (Cons x xs)
  from Cons.prems obtain nx where it: "s_items s = Some (Node x nx)"
    and nx: "chain_items nx = xs @ ys"
    by (cases "s_items s" rule: chain_items.cases) auto
  let ?s1 = "s\<lparr>s_items := nx, s_size := s_size s - 1\<rparr>"
  from Cons.prems it have pop: "s_pop s = (Inr x, ?s1)"
    by (simp add: s_pop_def s_isEmpty_def s_len_def stack_inv_def)
  from Cons.prems it have inv1: "stack_inv ?s1"
    by (simp add: stack_inv_def)
  from Cons.IH [OF inv1] nx obtain s' where
    "s_pop_n (length xs) ?s1 = (Inr xs, s')" "chain_items (s_items s') = ys" "stack_inv s'"
    by auto
  with pop show ?case by simp
qed

text \<open>
  C3. Pushing \<open>p1 .. pn\<close> onto a freshly constructed LinkedStack and popping \<open>n\<close> times
  raises nothing and returns \<open>pn, .., p1\<close>: the pushed items in reverse order (LIFO).
\<close>

theorem stack_lifo:
  "fst (s_pop_n (length ps) (push_all LinkedStack_new ps)) = Inr (rev ps)"
proof -
  let ?s = "push_all LinkedStack_new ps"
  have inv: "stack_inv ?s"
    by (rule stack_inv_push_all [OF stack_inv_new])
  have ch: "chain_items (s_items ?s) = rev ps @ []"
    by (simp add: push_all_chain LinkedStack_new_def)
  from s_pop_n_chain [OF inv ch] show ?thesis by auto
qed

section \<open>LinkedQueue: proofs\<close>

lemma path_upd: "a \<notin> set as \<Longrightarrow> path (h(a := c)) p as = path h p as"
  by (induction as arbitrary: p) (auto split: option.splits)

lemma datas_upd: "a \<notin> set as \<Longrightarrow> datas (h(a := c)) as = datas h as"
  by (simp add: datas_def)

lemma path_unique: "path h p as \<Longrightarrow> path h p bs \<Longrightarrow> as = bs"
proof (induction as arbitrary: p bs)
  case Nil
  then show ?case by (cases bs) auto
next
  case (Cons a as)
  then show ?case by (cases bs) (auto split: option.splits)
qed

lemma path_snoc:
  assumes "path h p as" "as \<noteq> []" "distinct as" "a \<notin> set as" "h (last as) = Some c"
  shows "path (h(a \<mapsto> \<lparr>n_data = x, n_next = None\<rparr>, last as \<mapsto> c\<lparr>n_next := Some a\<rparr>)) p (as @ [a])"
  using assms
proof (induction as arbitrary: p)
  case Nil
  then show ?case by simp
next
  case (Cons b bs)
  show ?case
  proof (cases "bs = []")
    case True
    with Cons.prems show ?thesis by (auto split: option.splits)
  next
    case False
    with Cons.prems obtain cb where cb: "h b = Some cb" "path h (n_next cb) bs" "p = Some b"
      by (auto split: option.splits)
    from False Cons.prems have ne: "last bs \<noteq> b" "a \<noteq> b" by auto
    from Cons.prems False have db: "distinct bs" "a \<notin> set bs" "h (last bs) = Some c"
      by auto
    note ih = Cons.IH [OF cb(2) False db]
    from ih cb ne False show ?thesis by simp
  qed
qed

lemma path_data_last: "path h p as \<Longrightarrow> as \<noteq> [] \<Longrightarrow> \<exists>c. h (last as) = Some c \<and> n_next c = None"
  by (induction as arbitrary: p) (auto split: option.splits)

lemma iter_from_path: "path h p as \<Longrightarrow> iter_from h p = Some (datas h as)"
proof (induction as arbitrary: p)
  case Nil
  then show ?case by (simp add: iter_from.simps datas_def)
next
  case (Cons a as)
  then obtain c where c: "p = Some a" "h a = Some c" "path h (n_next c) as"
    by (auto split: option.splits)
  from Cons.IH [OF c(3)] c show ?case
    by (subst iter_from.simps) (simp add: datas_def)
qed

lemma is_queue_new: "is_queue LinkedQueue_new []"
  by (simp add: is_queue_def LinkedQueue_new_def)

lemma q_add_is_queue:
  assumes "is_queue q as"
  shows "\<exists>q'. q_add q x = (Inr (), q') \<and> is_queue q' (as @ [q_fresh q]) \<and>
           datas (q_store q') (as @ [q_fresh q]) = datas (q_store q) as @ [x]"
proof (cases "as = []")
  case True
  with assms show ?thesis
    by (simp add: q_add_def is_queue_def q_isEmpty_def q_len_def Let_def datas_def)
next
  case False
  let ?a = "q_fresh q"
  let ?h = "q_store q"
  from assms have p: "path ?h (q_front q) as" and d: "distinct as" and sz: "q_size q = length as"
    and r: "q_rear q = Some (last as)" and fr: "\<forall>b\<in>set as. b < ?a"
    using False by (auto simp: is_queue_def list_all_iff)
  from fr have nin: "?a \<notin> set as" by auto
  from path_data_last [OF p False] obtain c where c: "?h (last as) = Some c" by auto
  from False nin have la: "last as \<noteq> ?a" using last_in_set by metis
  let ?h' = "?h(?a \<mapsto> \<lparr>n_data = x, n_next = None\<rparr>, last as \<mapsto> c\<lparr>n_next := Some ?a\<rparr>)"
  let ?q' = "q\<lparr>q_store := ?h', q_fresh := ?a + 1, q_rear := Some ?a, q_size := q_size q + 1\<rparr>"
  have add: "q_add q x = (Inr (), ?q')"
    using False sz r c la by (simp add: q_add_def q_isEmpty_def q_len_def Let_def deref_def)
  have p': "path ?h' (q_front q) (as @ [?a])"
    by (rule path_snoc [OF p False d nin c])
  have isq: "is_queue ?q' (as @ [?a])"
    using p' d nin sz fr by (auto simp: is_queue_def list_all_iff)
  have "datas ?h' as = datas ?h as"
  proof -
    have "\<forall>b\<in>set as. n_data (the (?h' b)) = n_data (the (?h b))"
      using nin c by auto
    then show ?thesis by (simp add: datas_def)
  qed
  then have dat: "datas ?h' (as @ [?a]) = datas ?h as @ [x]"
    using la by (simp add: datas_def)
  from add isq dat show ?thesis by simp
qed

lemma q_pop_is_queue:
  assumes "is_queue q (a # as)"
  shows "\<exists>q'. q_pop q = (Inr (n_data (the (q_store q a))), q') \<and> is_queue q' as \<and>
           q_store q' = q_store q \<and> q_fresh q' = q_fresh q"
proof -
  from assms obtain c where c: "q_front q = Some a" "q_store q a = Some c" "path (q_store q) (n_next c) as"
    by (auto simp: is_queue_def split: option.splits)
  from assms have rest: "distinct (a # as)" "q_size q = Suc (length as)" "q_rear q = Some (last (a # as))"
    "\<forall>b\<in>set as. b < q_fresh q"
    by (auto simp: is_queue_def list_all_iff)
  show ?thesis
  proof (cases "as = []")
    case True
    with c rest show ?thesis
      by (simp add: q_pop_def q_isEmpty_def q_len_def deref_def Let_def is_queue_def)
  next
    case False
    with c(3) have "n_next c \<noteq> None" by (cases as) auto
    with c rest False show ?thesis
      by (auto simp: q_pop_def q_isEmpty_def q_len_def deref_def Let_def is_queue_def list_all_iff)
  qed
qed

lemma q_add_all_is_queue:
  "is_queue q as \<Longrightarrow>
   \<exists>q' bs. add_all q_add q xs = (Inr (), q') \<and> is_queue q' (as @ bs) \<and>
           datas (q_store q') (as @ bs) = datas (q_store q) as @ xs"
proof (induction xs arbitrary: q as)
  case Nil
  then show ?case by (intro exI [of _ q] exI [of _ "[]"]) simp
next
  case (Cons x xs)
  from q_add_is_queue [OF Cons.prems, of x] obtain q1 where
    q1: "q_add q x = (Inr (), q1)" "is_queue q1 (as @ [q_fresh q])"
        "datas (q_store q1) (as @ [q_fresh q]) = datas (q_store q) as @ [x]" by blast
  from Cons.IH [OF q1(2)] obtain q' bs where
    "add_all q_add q1 xs = (Inr (), q')" "is_queue q' ((as @ [q_fresh q]) @ bs)"
    "datas (q_store q') ((as @ [q_fresh q]) @ bs) = datas (q_store q1) (as @ [q_fresh q]) @ xs"
    by blast
  with q1 show ?case by (intro exI [of _ q'] exI [of _ "q_fresh q # bs"]) simp
qed

lemma q_pop_n_is_queue:
  "is_queue q (as @ bs) \<Longrightarrow>
   \<exists>q'. q_pop_n (length as) q = (Inr (datas (q_store q) as), q') \<and> is_queue q' bs \<and>
        q_store q' = q_store q"
proof (induction as arbitrary: q)
  case Nil
  then show ?case by (simp add: datas_def)
next
  case (Cons a as)
  from Cons.prems have "is_queue q (a # (as @ bs))" by simp
  from q_pop_is_queue [OF this] obtain q1 where
    q1: "q_pop q = (Inr (n_data (the (q_store q a))), q1)" "is_queue q1 (as @ bs)"
        "q_store q1 = q_store q" by blast
  from Cons.IH [OF q1(2)] obtain q' where
    "q_pop_n (length as) q1 = (Inr (datas (q_store q1) as), q')" "is_queue q' bs"
    "q_store q' = q_store q1" by blast
  with q1 show ?case by (simp add: datas_def)
qed

text \<open>
  C2. Adding \<open>e1 .. en\<close> to a freshly constructed LinkedQueue raises nothing, and popping
  \<open>n\<close> times then raises nothing and returns \<open>e1, .., en\<close> in that order (FIFO).
\<close>

theorem queue_fifo:
  "fst (add_all q_add LinkedQueue_new es) = Inr () \<and>
   fst (q_pop_n (length es) (snd (add_all q_add LinkedQueue_new es))) = Inr es"
proof -
  from q_add_all_is_queue [OF is_queue_new, of es] obtain q' bs where
    a: "add_all q_add LinkedQueue_new es = (Inr (), q')" and q: "is_queue q' ([] @ bs)"
    and d: "datas (q_store q') ([] @ bs) = datas (q_store (LinkedQueue_new :: 'a linked_queue)) [] @ es"
    by blast
  from d have len: "length bs = length es" and d': "datas (q_store q') bs = es"
    by (auto simp: datas_def dest: arg_cong [where f = length])
  from q have "is_queue q' (bs @ [])" by simp
  from q_pop_n_is_queue [OF this] obtain q'' where
    "q_pop_n (length bs) q' = (Inr (datas (q_store q') bs), q'')" by blast
  with a len d' show ?thesis by simp
qed

section \<open>DynamicArray: proofs\<close>

lemma arr_index_nat: "k < length A \<Longrightarrow> arr_index A (int k) = Inr k"
  by (simp add: arr_index_def)

lemma arr_get_nat: "k < length A \<Longrightarrow> A ! k = Some v \<Longrightarrow> arr_get A (int k) = Inr v"
  by (simp add: arr_get_def arr_index_nat)

lemma arr_set_nat: "k < length A \<Longrightarrow> arr_set A (int k) v = Inr (A[k := Some v])"
  by (simp add: arr_set_def arr_index_nat)

lemma copy_loop_fold:
  "\<forall>k\<in>set ks. k < length A \<and> k < length B \<and> A ! k \<noteq> None \<Longrightarrow>
   copy_loop A B ks = Inr (fold (\<lambda>k B. B[k := A ! k]) ks B)"
proof (induction ks arbitrary: B)
  case Nil
  then show ?case by simp
next
  case (Cons k ks)
  then obtain v where v: "A ! k = Some v" by auto
  with Cons.prems have "copy_loop A B (k # ks) = copy_loop A (B[k := A ! k]) ks"
    by (simp add: arr_get_nat arr_set_nat)
  also have "\<dots> = Inr (fold (\<lambda>k B. B[k := A ! k]) ks (B[k := A ! k]))"
    using Cons.prems by (intro Cons.IH) simp
  finally show ?case by simp
qed

lemma fold_copy_upt:
  "n \<le> length A \<Longrightarrow> n \<le> length B \<Longrightarrow>
   fold (\<lambda>k B. B[k := A ! k]) [0..<n] B = take n A @ drop n B"
proof (induction n)
  case 0
  then show ?case by simp
next
  case (Suc n)
  then have "fold (\<lambda>k B. B[k := A ! k]) [0..<Suc n] B = (take n A @ drop n B)[n := A ! n]"
    by simp
  also have "\<dots> = take (Suc n) A @ drop (Suc n) B"
    using Suc.prems
    by (intro nth_equalityI) (auto simp: nth_append nth_list_update less_Suc_eq)
  finally show ?case .
qed


lemma da_inv_nth: "da_inv d \<Longrightarrow> k < da_n d \<Longrightarrow> \<exists>v. da_A d ! k = Some v"
  by (auto simp: da_inv_def list_all_length)

lemma da_items_nth: "da_inv d \<Longrightarrow> k < da_n d \<Longrightarrow> da_A d ! k = Some (da_items d ! k)"
  using da_inv_nth [of d k] by (auto simp: da_items_def da_inv_def)

lemma length_da_items: "da_inv d \<Longrightarrow> length (da_items d) = da_n d"
  by (simp add: da_items_def da_inv_def)

lemma resize_ok:
  assumes "da_inv d" "da_n d \<le> c"
  shows "resize d c =
           (Inr (), d\<lparr>da_A := take (da_n d) (da_A d) @ replicate (c - da_n d) None,
                       da_capacity := c\<rparr>)"
proof -
  from assms have "\<forall>k\<in>set [0..<da_n d].
      k < length (da_A d) \<and> k < length (make_array c :: 'a slots) \<and> da_A d ! k \<noteq> None"
    using da_inv_nth [OF assms(1)] by (auto simp: da_inv_def make_array_def)
  from copy_loop_fold [OF this]
  have "copy_loop (da_A d) (make_array c) [0..<da_n d] =
          Inr (take (da_n d) (da_A d) @ drop (da_n d) (make_array c))"
    using assms by (simp add: fold_copy_upt da_inv_def make_array_def)
  then show ?thesis by (simp add: resize_def make_array_def)
qed

lemma resize_if_full_ok:
  assumes "da_inv d"
  shows "\<exists>d1. resize_if_full d = (Inr (), d1) \<and> da_inv d1 \<and> da_n d1 = da_n d \<and>
           da_n d1 < da_capacity d1 \<and> da_items d1 = da_items d \<and>
           da_capacity d1 = (if da_n d = da_capacity d then 2 * da_capacity d else da_capacity d)"
proof (cases "da_n d = da_capacity d")
  case True
  let ?d1 = "d\<lparr>da_A := take (da_n d) (da_A d) @ replicate (2 * da_capacity d - da_n d) None,
               da_capacity := 2 * da_capacity d\<rparr>"
  from assms True have "resize d (2 * da_capacity d) = (Inr (), ?d1)"
    by (intro resize_ok) simp_all
  moreover from assms True have full: "take (da_n d) (da_A d) = da_A d"
    by (simp add: da_inv_def)
  from assms True full have "da_inv ?d1" "da_items ?d1 = da_items d"
    by (auto simp: da_inv_def da_items_def)
  moreover from assms True have "da_n ?d1 < da_capacity ?d1"
    by (simp add: da_inv_def)
  ultimately show ?thesis using True by (simp add: resize_if_full_def)
next
  case False
  with assms show ?thesis by (simp add: resize_if_full_def da_inv_def)
qed

lemma da_append_ok:
  assumes "da_inv d"
  shows "\<exists>d'. da_append d v = (Inr (), d') \<and> da_inv d' \<and> da_items d' = da_items d @ [v] \<and>
           da_n d' = da_n d + 1 \<and>
           da_capacity d' = (if da_n d = da_capacity d then 2 * da_capacity d else da_capacity d)"
proof -
  from resize_if_full_ok [OF assms] obtain d1 where
    d1: "resize_if_full d = (Inr (), d1)" "da_inv d1" "da_n d1 = da_n d"
        "da_n d1 < da_capacity d1" "da_items d1 = da_items d"
        "da_capacity d1 = (if da_n d = da_capacity d then 2 * da_capacity d else da_capacity d)"
    by blast
  let ?d' = "d1\<lparr>da_A := (da_A d1)[da_n d1 := Some v], da_n := da_n d1 + 1\<rparr>"
  from d1 have len: "da_n d1 < length (da_A d1)" by (simp add: da_inv_def)
  from d1 len have app: "da_append d v = (Inr (), ?d')"
    by (simp add: da_append_def arr_set_nat)
  from d1 len have inv: "da_inv ?d'"
    by (auto simp: da_inv_def list_all_length nth_list_update)
  from len have "take (Suc (da_n d1)) ((da_A d1)[da_n d1 := Some v]) = take (da_n d1) (da_A d1) @ [Some v]"
    by (simp add: take_Suc_conv_app_nth)
  then have "da_items ?d' = da_items d1 @ [v]"
    by (simp add: da_items_def)
  with app inv d1 show ?thesis by simp
qed

lemma range_down_step: "k < n \<Longrightarrow> range_down n k = n # range_down (n - 1) k"
  by (simp add: range_down_def upto_rec2)

lemma range_down_empty: "n \<le> k \<Longrightarrow> range_down n k = []"
  by (simp add: range_down_def)

lemma shift_right_ok:
  "kk \<le> n \<Longrightarrow> n < length A \<Longrightarrow> \<forall>j. kk \<le> j \<and> j < n \<longrightarrow> A ! j \<noteq> None \<Longrightarrow>
   shift_right A (range_down (int n) (int kk)) =
     (Inr (), map (\<lambda>j. if kk < j \<and> j \<le> n then A ! (j - 1) else A ! j) [0..<length A])"
proof (induction n arbitrary: A)
  case 0
  then show ?case by (auto simp: range_down_empty intro!: nth_equalityI)
next
  case (Suc n)
  show ?case
  proof (cases "kk = Suc n")
    case True
    then show ?thesis by (auto simp: range_down_empty intro!: nth_equalityI)
  next
    case False
    with Suc.prems have kn: "kk \<le> n" by simp
    from Suc.prems kn obtain v where v: "A ! n = Some v" by auto
    let ?A1 = "A[Suc n := Some v]"
    have rd: "range_down (int (Suc n)) (int kk) = int (Suc n) # range_down (int n) (int kk)"
      using kn range_down_step [of "int kk" "int (Suc n)"] by simp
    have g: "arr_get A (int (Suc n) - 1) = Inr v"
      using arr_get_nat [of n A v] Suc.prems v by simp
    have s: "arr_set A (int (Suc n)) v = Inr ?A1"
      using arr_set_nat [of "Suc n" A v] Suc.prems by simp
    have ih: "shift_right ?A1 (range_down (int n) (int kk)) =
        (Inr (), map (\<lambda>j. if kk < j \<and> j \<le> n then ?A1 ! (j - 1) else ?A1 ! j) [0..<length ?A1])"
      using Suc.prems kn by (intro Suc.IH) (auto simp: nth_list_update)
    have "map (\<lambda>j. if kk < j \<and> j \<le> n then ?A1 ! (j - 1) else ?A1 ! j) [0..<length ?A1] =
          map (\<lambda>j. if kk < j \<and> j \<le> Suc n then A ! (j - 1) else A ! j) [0..<length A]"
      using Suc.prems v kn by (auto simp: nth_list_update)
    with rd g s ih show ?thesis by simp
  qed
qed

lemma shift_left_ok:
  "k \<le> m \<Longrightarrow> m < length A \<Longrightarrow> \<forall>j. k < j \<and> j \<le> m \<longrightarrow> A ! j \<noteq> None \<Longrightarrow>
   shift_left A [k..<m] =
     (Inr (), map (\<lambda>j. if k \<le> j \<and> j < m then A ! (j + 1) else A ! j) [0..<length A])"
proof (induction "m - k" arbitrary: k A)
  case 0
  then show ?case by (auto intro!: nth_equalityI)
next
  case (Suc x)
  then have km: "k < m" by simp
  from Suc.prems km obtain v where v: "A ! (k + 1) = Some v" by force
  let ?A1 = "A[k := Some v]"
  have up: "[k..<m] = k # [Suc k..<m]" using km by (simp add: upt_conv_Cons)
  have g: "arr_get A (int k + 1) = Inr v"
    using arr_get_nat [of "k + 1" A v] Suc.prems km v by (simp add: add.commute)
  have s: "arr_set A (int k) v = Inr ?A1"
    using arr_set_nat [of k A v] Suc.prems km by simp
  have ih: "shift_left ?A1 [Suc k..<m] =
      (Inr (), map (\<lambda>j. if Suc k \<le> j \<and> j < m then ?A1 ! (j + 1) else ?A1 ! j) [0..<length ?A1])"
    using Suc.prems Suc.hyps(2) km by (intro Suc.hyps(1)) (auto simp: nth_list_update)
  have "map (\<lambda>j. if Suc k \<le> j \<and> j < m then ?A1 ! (j + 1) else ?A1 ! j) [0..<length ?A1] =
        map (\<lambda>j. if k \<le> j \<and> j < m then A ! (j + 1) else A ! j) [0..<length A]"
    using Suc.prems v km by (auto simp: nth_list_update)
  with up g s ih show ?case by simp
qed


lemma getitem_items:
  "da_inv d \<Longrightarrow> i < da_n d \<Longrightarrow> getitem d (int i) = Inr (da_items d ! i)"
  using da_items_nth [of d i] by (simp add: getitem_def arr_get_nat da_inv_def)

lemma da_insert_ok:
  assumes inv: "da_inv d" and k: "kk \<le> da_n d"
  shows "\<exists>d'. da_insert d (int kk) v = (Inr (), d') \<and> da_inv d' \<and>
           da_items d' = take kk (da_items d) @ v # drop kk (da_items d) \<and>
           da_n d' = da_n d + 1 \<and>
           da_capacity d' = (if da_n d = da_capacity d then 2 * da_capacity d else da_capacity d)"
proof -
  from resize_if_full_ok [OF inv] obtain d1 where
    d1: "resize_if_full d = (Inr (), d1)" "da_inv d1" "da_n d1 = da_n d"
        "da_n d1 < da_capacity d1" "da_items d1 = da_items d"
        "da_capacity d1 = (if da_n d = da_capacity d then 2 * da_capacity d else da_capacity d)"
    by blast
  let ?n = "da_n d1"
  let ?A = "da_A d1"
  let ?A1 = "map (\<lambda>j. if kk < j \<and> j \<le> ?n then ?A ! (j - 1) else ?A ! j) [0..<length ?A]"
  let ?d' = "d1\<lparr>da_A := ?A1[kk := Some v], da_n := ?n + 1\<rparr>"
  from d1 have len: "?n < length ?A" by (simp add: da_inv_def)
  have some: "\<And>j. j < ?n \<Longrightarrow> ?A ! j = Some (da_items d1 ! j)"
    using da_items_nth [OF d1(2)] by simp
  have sh: "shift_right ?A (range_down (int ?n) (int kk)) = (Inr (), ?A1)"
    using k d1(3) len some by (intro shift_right_ok) auto
  have st: "arr_set ?A1 (int kk) v = Inr (?A1[kk := Some v])"
    using k d1(3) len by (intro arr_set_nat) simp
  have ins: "da_insert d (int kk) v = (Inr (), ?d')"
    using d1(1) sh st by (simp add: da_insert_def)
  have slots: "\<And>i. i \<le> ?n \<Longrightarrow>
      (?A1[kk := Some v]) ! i =
        Some (if i < kk then da_items d1 ! i else if i = kk then v else da_items d1 ! (i - 1))"
    using k d1(3) len some by (auto simp: nth_list_update)
  have inv': "da_inv ?d'"
    using d1(2,4) len slots by (auto simp: da_inv_def list_all_length less_Suc_eq_le)
  have "da_items ?d' = take kk (da_items d1) @ v # drop kk (da_items d1)"
  proof (rule nth_equalityI)
    show "length (da_items ?d') = length (take kk (da_items d1) @ v # drop kk (da_items d1))"
      using k d1(3) len length_da_items [OF d1(2)] by (simp add: da_items_def)
  next
    fix i assume "i < length (da_items ?d')"
    then have i: "i \<le> ?n" using len by (simp add: da_items_def)
    then have "da_items ?d' ! i = the ((?A1[kk := Some v]) ! i)"
      using len by (simp add: da_items_def)
    also have "\<dots> = (if i < kk then da_items d1 ! i else if i = kk then v
                      else da_items d1 ! (i - 1))"
      using slots [OF i] by simp
    also have "\<dots> = (take kk (da_items d1) @ v # drop kk (da_items d1)) ! i"
      using i k d1(3) length_da_items [OF d1(2)]
      by (auto simp: nth_append nth_Cons' min_def)
    finally show "da_items ?d' ! i = (take kk (da_items d1) @ v # drop kk (da_items d1)) ! i" .
  qed
  with ins inv' d1 show ?thesis by simp
qed

lemma remove_scan_absent:
  "da_inv d \<Longrightarrow> \<forall>k\<in>set ks. k < da_n d \<and> da_items d ! k \<noteq> v \<Longrightarrow>
   remove_scan d v ks = (Inl ValueError, d)"
proof (induction ks)
  case Nil
  then show ?case by simp
next
  case (Cons k ks)
  then have "arr_get (da_A d) (int k) = Inr (da_items d ! k)"
    using da_items_nth [of d k] by (intro arr_get_nat) (auto simp: da_inv_def)
  with Cons show ?case by simp
qed

lemma remove_scan_found:
  assumes inv: "da_inv d" and k: "k < da_n d" and hit: "da_items d ! k = v"
  shows "\<forall>j\<in>set ks1. j < da_n d \<and> da_items d ! j \<noteq> v \<Longrightarrow>
     remove_scan d v (ks1 @ k # ks2) =
       (Inr (), d\<lparr>da_A := (map (\<lambda>j. if k \<le> j \<and> j < da_n d - 1 then da_A d ! (j + 1)
                                       else da_A d ! j) [0..<length (da_A d)])
                           [da_n d - 1 := Some PyNone],
                   da_n := da_n d - 1\<rparr>)"
proof (induction ks1)
  case Nil
  let ?A = "da_A d"
  let ?A1 = "map (\<lambda>j. if k \<le> j \<and> j < da_n d - 1 then ?A ! (j + 1) else ?A ! j) [0..<length ?A]"
  from inv k have len: "da_n d - 1 < length ?A" "k < length ?A" by (auto simp: da_inv_def)
  have g: "arr_get ?A (int k) = Inr (da_items d ! k)"
    using da_items_nth [OF inv k] len by (intro arr_get_nat) auto
  have sh: "shift_left ?A [k..<da_n d - 1] = (Inr (), ?A1)"
    using k len da_inv_nth [OF inv] by (intro shift_left_ok) auto
  have "arr_set ?A1 (int (da_n d - 1)) PyNone = Inr (?A1[da_n d - 1 := Some PyNone])"
    using len by (intro arr_set_nat) simp
  moreover have "int (da_n d - 1) = int (da_n d) - 1" using k by simp
  ultimately have st: "arr_set ?A1 (int (da_n d) - 1) PyNone = Inr (?A1[da_n d - 1 := Some PyNone])"
    by simp
  from g hit sh st show ?case by simp
next
  case (Cons j ks1)
  then have "arr_get (da_A d) (int j) = Inr (da_items d ! j)"
    using da_items_nth [of d j] inv by (intro arr_get_nat) (auto simp: da_inv_def)
  with Cons show ?case by simp
qed

lemma da_remove_absent:
  assumes "da_inv d" "v \<notin> set (da_items d)"
  shows "da_remove d v = (Inl ValueError, d)"
  unfolding da_remove_def
  using assms length_da_items [OF assms(1)]
  by (intro remove_scan_absent) (auto simp: in_set_conv_nth)

lemma da_remove_present:
  assumes inv: "da_inv d" and v: "v \<in> set (da_items d)"
  shows "\<exists>d'. da_remove d v = (Inr (), d') \<and> da_inv d' \<and>
           da_items d' = remove1 v (da_items d) \<and> da_n d' + 1 = da_n d \<and>
           da_A d' ! da_n d' = Some PyNone \<and> da_capacity d' = da_capacity d"
proof -
  from split_list_first [OF v] obtain ys zs where
    xs: "da_items d = ys @ v # zs" and ys: "v \<notin> set ys" by blast
  let ?k = "length ys"
  let ?n = "da_n d"
  let ?A = "da_A d"
  let ?A2 = "(map (\<lambda>j. if ?k \<le> j \<and> j < ?n - 1 then ?A ! (j + 1) else ?A ! j) [0..<length ?A])
               [?n - 1 := Some PyNone]"
  let ?d' = "d\<lparr>da_A := ?A2, da_n := ?n - 1\<rparr>"
  from xs length_da_items [OF inv] have n: "?n = Suc (?k + length zs)" by simp
  then have k: "?k < ?n" by simp
  have hit: "da_items d ! ?k = v" using xs by simp
  have miss: "\<forall>j\<in>set [0..<?k]. j < ?n \<and> da_items d ! j \<noteq> v"
    using xs ys k by (auto simp: nth_append)
  have "[0..<?k + (?n - ?k)] = [0..<?k] @ [?k..<?k + (?n - ?k)]"
    by (rule upt_add_eq_append) simp
  with k have up: "[0..<?n] = [0..<?k] @ ?k # [Suc ?k..<?n]"
    by (simp add: upt_conv_Cons)
  have rm: "da_remove d v = (Inr (), ?d')"
    unfolding da_remove_def up by (rule remove_scan_found [OF inv k hit miss])
  from inv have len: "?n \<le> length ?A" by (simp add: da_inv_def)
  have slots: "\<And>i. i < ?n - 1 \<Longrightarrow> ?A2 ! i = Some ((ys @ zs) ! i)"
    using len n da_items_nth [OF inv] xs
    by (auto simp: nth_list_update nth_append nth_Cons' Suc_diff_le)
  have "list_all (\<lambda>s. s \<noteq> None) (take (?n - 1) ?A2)"
    unfolding list_all_length
  proof (intro allI impI)
    fix i assume "i < length (take (?n - 1) ?A2)"
    then have i: "i < ?n - 1" by simp
    from slots [OF i] i show "take (?n - 1) ?A2 ! i \<noteq> None" by simp
  qed
  with inv have inv': "da_inv ?d'"
    by (auto simp: da_inv_def)
  have "da_items ?d' = ys @ zs"
    using slots len n by (intro nth_equalityI) (auto simp: da_items_def)
  moreover have "remove1 v (da_items d) = ys @ zs"
    using xs ys by (simp add: remove1_append)
  moreover have "?A2 ! (?n - 1) = Some PyNone"
    using len n by simp
  ultimately show ?thesis using rm inv' n by simp
qed


lemma DynamicArray_new_code [code]:
  "DynamicArray_new = \<lparr>da_n = 0, da_capacity = 1, da_A = [None]\<rparr>"
  by (simp add: DynamicArray_new_def make_array_def)

lemma da_inv_new: "da_inv DynamicArray_new"
  by (simp add: da_inv_def DynamicArray_new_def make_array_def)

lemma da_step_inv:
  assumes "da_inv d" "da_pre d x"
  shows "da_inv (da_step d x) \<and>
         da_capacity (da_step d x) = (if grows d x then 2 * da_capacity d else da_capacity d)"
proof (cases x)
  case (Append v)
  with da_append_ok [OF assms(1), of v] show ?thesis by auto
next
  case (Insert k v)
  with assms(2) have "nat k \<le> da_n d" "k = int (nat k)" by auto
  with da_insert_ok [OF assms(1), of "nat k" v] Insert show ?thesis by auto
next
  case (Remove v)
  show ?thesis
  proof (cases "v \<in> set (da_items d)")
    case True
    with da_remove_present [OF assms(1), of v] Remove show ?thesis by auto
  next
    case False
    with da_remove_absent [OF assms(1), of v] Remove assms(1) show ?thesis by simp
  qed
next
  case (GetItem k)
  with assms(1) show ?thesis by simp
qed

lemma length_da_trace: "length (da_trace d ops) = Suc (length ops)"
  by (induction ops arbitrary: d) simp_all

lemma da_trace_inv:
  "da_inv d \<Longrightarrow> da_valid d ops \<Longrightarrow>
   \<forall>d'\<in>set (da_trace d ops). da_inv d' \<and> da_capacity d \<le> da_capacity d'"
proof (induction ops arbitrary: d)
  case Nil
  then show ?case by simp
next
  case (Cons x ops)
  from da_step_inv [of d x] Cons.prems
  have st: "da_inv (da_step d x)" "da_capacity d \<le> da_capacity (da_step d x)"
    by (auto split: if_splits)
  from Cons.IH [OF st(1)] Cons.prems
  have "\<forall>d'\<in>set (da_trace (da_step d x) ops).
          da_inv d' \<and> da_capacity (da_step d x) \<le> da_capacity d'" by simp
  with st Cons.prems show ?case by fastforce
qed

lemma da_trace_caps:
  "da_inv d \<Longrightarrow> da_valid d ops \<Longrightarrow> i < length ops \<Longrightarrow>
   da_capacity (da_trace d ops ! Suc i) =
     (if grows (da_trace d ops ! i) (ops ! i) then 2 * da_capacity (da_trace d ops ! i)
      else da_capacity (da_trace d ops ! i))"
proof (induction ops arbitrary: d i)
  case Nil
  then show ?case by simp
next
  case (Cons x ops)
  from da_step_inv [of d x] Cons.prems
  have st: "da_inv (da_step d x)"
    "da_capacity (da_step d x) = (if grows d x then 2 * da_capacity d else da_capacity d)"
    by auto
  have hd: "da_trace (da_step d x) ops ! 0 = da_step d x"
    by (cases ops) simp_all
  show ?case
  proof (cases i)
    case 0
    with st hd show ?thesis by simp
  next
    case (Suc j)
    with Cons.prems have "j < length ops" "da_valid (da_step d x) ops" by simp_all
    from Cons.IH [OF st(1) this(2) this(1)] Suc show ?thesis by simp
  qed
qed

lemma da_trace_sorted:
  "da_inv d \<Longrightarrow> da_valid d ops \<Longrightarrow> sorted (map da_capacity (da_trace d ops))"
proof (induction ops arbitrary: d)
  case Nil
  then show ?case by simp
next
  case (Cons x ops)
  from da_step_inv [of d x] Cons.prems have st: "da_inv (da_step d x)" by auto
  from da_trace_inv [OF Cons.prems]
  have "\<forall>d'\<in>set (da_trace (da_step d x) ops). da_capacity d \<le> da_capacity d'" by simp
  moreover from Cons.IH [OF st] Cons.prems
  have "sorted (map da_capacity (da_trace (da_step d x) ops))" by simp
  ultimately show ?case by simp
qed

text \<open>
  C5. Along every sequence of public operations (\<^verbatim>\<open>append\<close>, \<^verbatim>\<open>insert\<close> with
  \<open>0 \<le> k \<le> n\<close>, \<^verbatim>\<open>remove\<close>, indexing) on a new DynamicArray, every state visited has
  \<open>n \<le> capacity\<close>, the capacity never decreases, and each operation leaves the capacity
  as it is or doubles it: it doubles exactly when an \<^verbatim>\<open>append\<close> or \<^verbatim>\<open>insert\<close> finds the
  array full.
\<close>

theorem capacity_invariant:
  assumes "da_valid DynamicArray_new ops"
  shows "(\<forall>d\<in>set (da_trace DynamicArray_new ops). da_n d \<le> da_capacity d) \<and>
         sorted (map da_capacity (da_trace DynamicArray_new ops)) \<and>
         (\<forall>i<length ops.
            da_capacity (da_trace DynamicArray_new ops ! Suc i) =
              (if grows (da_trace DynamicArray_new ops ! i) (ops ! i)
               then 2 * da_capacity (da_trace DynamicArray_new ops ! i)
               else da_capacity (da_trace DynamicArray_new ops ! i)))"
proof (intro conjI)
  from da_trace_inv [OF da_inv_new assms]
  show "\<forall>d\<in>set (da_trace DynamicArray_new ops). da_n d \<le> da_capacity d"
    by (simp add: da_inv_def)
  show "sorted (map da_capacity (da_trace DynamicArray_new ops))"
    by (rule da_trace_sorted [OF da_inv_new assms])
  show "\<forall>i<length ops.
            da_capacity (da_trace DynamicArray_new ops ! Suc i) =
              (if grows (da_trace DynamicArray_new ops ! i) (ops ! i)
               then 2 * da_capacity (da_trace DynamicArray_new ops ! i)
               else da_capacity (da_trace DynamicArray_new ops ! i))"
    using da_trace_caps [OF da_inv_new assms] by blast
qed

theorem capacity_invariant_witness:
  "da_valid DynamicArray_new example_ops \<and>
   list_all (\<lambda>d. da_n d \<le> da_capacity d) (da_trace DynamicArray_new example_ops) \<and>
   sorted (map da_capacity (da_trace DynamicArray_new example_ops)) \<and>
   da_capacity (da_trace DynamicArray_new example_ops ! Suc 2) =
     2 * da_capacity (da_trace DynamicArray_new example_ops ! 2) \<and>
   map da_capacity (da_trace DynamicArray_new example_ops) = [1, 1, 2, 4, 4, 4, 4] \<and>
   map da_n (da_trace DynamicArray_new example_ops) = [0, 1, 2, 3, 4, 3, 3]"
proof -
  have v: "da_valid DynamicArray_new example_ops" by code_simp
  have c: "map da_capacity (da_trace DynamicArray_new example_ops) = [1, 1, 2, 4, 4, 4, 4]"
    by code_simp
  have n: "map da_n (da_trace DynamicArray_new example_ops) = [0, 1, 2, 3, 4, 3, 3]"
    by code_simp
  have g: "grows (da_trace DynamicArray_new example_ops ! 2) (example_ops ! 2)"
    by code_simp
  have l: "2 < length example_ops" by code_simp
  note t = capacity_invariant [OF v]
  from t have "list_all (\<lambda>d. da_n d \<le> da_capacity d) (da_trace DynamicArray_new example_ops)"
    by (simp add: list_all_iff)
  moreover from t have "sorted (map da_capacity (da_trace DynamicArray_new example_ops))"
    by blast
  moreover from t l g have "da_capacity (da_trace DynamicArray_new example_ops ! Suc 2) =
      2 * da_capacity (da_trace DynamicArray_new example_ops ! 2)"
    by presburger
  ultimately show ?thesis using v c n by blast
qed

text \<open>
  C6. On a DynamicArray that satisfies its representation invariant, \<^verbatim>\<open>remove(value)\<close>
  raises \<^verbatim>\<open>ValueError\<close> (NotFound) if and only if no item equals the value, and then leaves
  the array unchanged; otherwise it removes the first item equal to the value and only
  that one, the later items move one slot to the left in their order, the vacated last
  slot holds \<^verbatim>\<open>None\<close>, the length decreases by exactly 1 and the capacity stays.
\<close>

theorem remove_first_or_not_found:
  assumes "da_inv d"
  shows "(fst (da_remove d v) = Inl ValueError \<longleftrightarrow> v \<notin> set (da_items d)) \<and>
         (v \<notin> set (da_items d) \<longrightarrow> da_remove d v = (Inl ValueError, d)) \<and>
         (v \<in> set (da_items d) \<longrightarrow>
            fst (da_remove d v) = Inr () \<and>
            da_items (snd (da_remove d v)) = remove1 v (da_items d) \<and>
            (\<forall>ys zs. da_items d = ys @ v # zs \<and> v \<notin> set ys \<longrightarrow>
                     da_items (snd (da_remove d v)) = ys @ zs) \<and>
            da_len (snd (da_remove d v)) + 1 = da_len d \<and>
            da_A (snd (da_remove d v)) ! (da_len d - 1) = Some PyNone \<and>
            da_capacity (snd (da_remove d v)) = da_capacity d)"
proof (cases "v \<in> set (da_items d)")
  case True
  from da_remove_present [OF assms True] obtain d' where
    d': "da_remove d v = (Inr (), d')" "da_items d' = remove1 v (da_items d)"
        "da_n d' + 1 = da_n d" "da_A d' ! da_n d' = Some PyNone"
        "da_capacity d' = da_capacity d" by blast
  from d'(3) have "da_n d - 1 = da_n d'" by simp
  with d' True show ?thesis by (auto simp: da_len_def remove1_append)
next
  case False
  with da_remove_absent [OF assms False] show ?thesis by simp
qed

theorem remove_first_or_not_found_witness:
  "da_inv example_array \<and>
   da_items example_array = [Obj 1, Obj 2, Obj 1] \<and>
   fst (da_remove example_array (Obj 1)) = Inr () \<and>
   da_items (snd (da_remove example_array (Obj 1))) = [Obj 2, Obj 1] \<and>
   da_len (snd (da_remove example_array (Obj 1))) = 2 \<and>
   da_A (snd (da_remove example_array (Obj 1))) ! 2 = Some PyNone \<and>
   da_remove example_array (Obj 7) = (Inl ValueError, example_array)"
proof -
  have inv: "da_inv example_array" by code_simp
  have items: "da_items example_array = [Obj 1, Obj 2, Obj 1]" by code_simp
  have len: "da_len example_array = 3" by code_simp
  note r1 = remove_first_or_not_found [OF inv, of "Obj 1"]
  note r7 = remove_first_or_not_found [OF inv, of "Obj 7"]
  from inv items len r1 r7 show ?thesis by simp
qed

text \<open>
  C7. On a DynamicArray of length \<open>n\<close> that satisfies its representation invariant, and
  for \<open>0 \<le> k \<le> n\<close>, \<^verbatim>\<open>insert(k, v)\<close> raises nothing; afterwards index \<open>k\<close> holds \<open>v\<close>,
  every item that was at an index \<open>i \<ge> k\<close> is at \<open>i + 1\<close>, the items below \<open>k\<close> are
  where they were, and the length is \<open>n + 1\<close>.
\<close>

theorem insert_shifts_right:
  assumes "da_inv d" and "0 \<le> k" and "k \<le> int (da_len d)"
  shows "fst (da_insert d k v) = Inr () \<and>
         getitem (snd (da_insert d k v)) k = Inr v \<and>
         (\<forall>i. k \<le> i \<and> i < int (da_len d) \<longrightarrow>
              getitem (snd (da_insert d k v)) (i + 1) = getitem d i) \<and>
         (\<forall>i. 0 \<le> i \<and> i < k \<longrightarrow> getitem (snd (da_insert d k v)) i = getitem d i) \<and>
         da_len (snd (da_insert d k v)) = da_len d + 1 \<and>
         da_items (snd (da_insert d k v)) = take (nat k) (da_items d) @ v # drop (nat k) (da_items d)"
proof -
  let ?kk = "nat k"
  let ?xs = "da_items d"
  from assms have kk: "?kk \<le> da_n d" "k = int ?kk" by (simp_all add: da_len_def)
  from da_insert_ok [OF assms(1) kk(1), of v] kk(2) obtain d' where
    d': "da_insert d k v = (Inr (), d')" "da_inv d'"
        "da_items d' = take ?kk ?xs @ v # drop ?kk ?xs" "da_n d' = da_n d + 1"
    by auto
  have lx: "length ?xs = da_n d" by (rule length_da_items [OF assms(1)])
  have at_k: "getitem d' k = Inr v"
  proof -
    have "getitem d' (int ?kk) = Inr (da_items d' ! ?kk)"
      using d'(2,4) kk(1) by (intro getitem_items) simp_all
    with d'(3) kk lx show ?thesis by (simp add: nth_append)
  qed
  have above: "getitem d' (i + 1) = getitem d i" if "k \<le> i" "i < int (da_len d)" for i
  proof -
    from that assms(2) obtain j where j: "i = int j" "?kk \<le> j" "j < da_n d"
      by (metis da_len_def nat_int nat_mono of_nat_less_iff order_trans zero_le_imp_eq_int)
    have "getitem d' (int (Suc j)) = Inr (da_items d' ! Suc j)"
      using d'(2,4) j by (intro getitem_items) simp_all
    also have "da_items d' ! Suc j = ?xs ! j"
      using d'(3) j lx by (simp add: nth_append Suc_diff_le)
    also have "Inr (?xs ! j) = getitem d (int j)"
      using getitem_items [OF assms(1) j(3)] by simp
    finally show ?thesis unfolding j(1) by (simp add: add.commute)
  qed
  have below: "getitem d' i = getitem d i" if "0 \<le> i" "i < k" for i
  proof -
    from that kk obtain j where j: "i = int j" "j < ?kk" "j < da_n d"
      by (metis less_le_trans nat_int of_nat_less_iff zero_le_imp_eq_int)
    have "getitem d' (int j) = Inr (da_items d' ! j)"
      using d'(2,4) j by (intro getitem_items) simp_all
    also have "da_items d' ! j = ?xs ! j"
      using d'(3) j lx by (simp add: nth_append)
    also have "Inr (?xs ! j) = getitem d (int j)"
      using getitem_items [OF assms(1) j(3)] by simp
    finally show ?thesis unfolding j(1) .
  qed
  from d' at_k above below show ?thesis by (simp add: da_len_def)
qed

theorem insert_shifts_right_witness:
  "da_inv example_array \<and> (0::int) \<le> 1 \<and> 1 \<le> int (da_len example_array) \<and>
   fst (da_insert example_array 1 (Obj 9)) = Inr () \<and>
   da_items (snd (da_insert example_array 1 (Obj 9))) = [Obj 1, Obj 9, Obj 2, Obj 1] \<and>
   getitem (snd (da_insert example_array 1 (Obj 9))) 1 = Inr (Obj 9) \<and>
   getitem (snd (da_insert example_array 1 (Obj 9))) 2 = getitem example_array 1 \<and>
   getitem (snd (da_insert example_array 1 (Obj 9))) 0 = getitem example_array 0 \<and>
   da_len (snd (da_insert example_array 1 (Obj 9))) = 4"
proof -
  have inv: "da_inv example_array" by code_simp
  have items: "da_items example_array = [Obj 1, Obj 2, Obj 1]" by code_simp
  have len: "da_len example_array = 3" by code_simp
  have k: "(0::int) \<le> 1" "1 \<le> int (da_len example_array)" using len by simp_all
  note r = insert_shifts_right [OF inv k, of "Obj 9"]
  from r have "\<forall>i. 1 \<le> i \<and> i < int (da_len example_array) \<longrightarrow>
      getitem (snd (da_insert example_array 1 (Obj 9))) (i + 1) = getitem example_array i"
    by blast
  from this [rule_format, of 1] len
  have above: "getitem (snd (da_insert example_array 1 (Obj 9))) 2 = getitem example_array 1"
    by simp
  from r have "\<forall>i. 0 \<le> i \<and> i < 1 \<longrightarrow>
      getitem (snd (da_insert example_array 1 (Obj 9))) i = getitem example_array i"
    by blast
  from this [rule_format, of 0]
  have below: "getitem (snd (da_insert example_array 1 (Obj 9))) 0 = getitem example_array 0"
    by simp
  from inv items len k r above below show ?thesis by simp
qed

section \<open>Copy construction, equality and the empty collection: proofs\<close>

lemma visitNodes_chain: "visitNodes nd tempList = tempList @ rev (chain_items nd)"
  by (induction nd tempList rule: visitNodes.induct) simp_all

lemma s_iter_chain: "s_iter s = rev (chain_items (s_items s))"
  by (simp add: s_iter_def visitNodes_chain)


lemma add_all_s_add: "add_all s_add s xs = (Inr (), push_all s xs)"
  by (induction xs arbitrary: s) (simp_all add: s_add_def)

lemma eq_loop_same_length: "length xs = length ys \<Longrightarrow> eq_loop xs ys = Inr (xs = ys)"
  by (induction xs ys rule: list_induct2) simp_all


lemma stack_inv_init:
  "LinkedStack_init src = Some (r, c) \<Longrightarrow> r = Inr () \<and> stack_inv c"
  by (auto simp: LinkedStack_init_def AbstractCollection_init_def add_all_s_add
        stack_inv_new stack_inv_push_all split: option.splits if_splits)



lemma s_pop_n_drained:
  "s_isEmpty (snd (s_pop_n (length ps) (push_all LinkedStack_new ps)))"
proof -
  let ?s = "push_all LinkedStack_new ps"
  have inv: "stack_inv ?s" by (rule stack_inv_push_all [OF stack_inv_new])
  have ch: "chain_items (s_items ?s) = rev ps @ []"
    by (simp add: push_all_chain LinkedStack_new_def)
  from s_pop_n_chain [OF inv ch] show ?thesis
    by (auto simp: s_isEmpty_def s_len_def stack_inv_def)
qed

lemma q_pop_n_drained:
  "q_isEmpty (snd (q_pop_n (length es) (snd (add_all q_add LinkedQueue_new es))))"
proof -
  from q_add_all_is_queue [OF is_queue_new, of es] obtain q' bs where
    a: "add_all q_add LinkedQueue_new es = (Inr (), q')" and q: "is_queue q' ([] @ bs)"
    and d: "datas (q_store q') ([] @ bs) = datas (q_store (LinkedQueue_new :: 'a linked_queue)) [] @ es"
    by blast
  from d have len: "length bs = length es"
    by (auto simp: datas_def dest: arg_cong [where f = length])
  from q have "is_queue q' (bs @ [])" by simp
  from q_pop_n_is_queue [OF this] obtain q'' where
    "q_pop_n (length bs) q' = (Inr (datas (q_store q') bs), q'')" "is_queue q'' []" by blast
  with a len show ?thesis by (simp add: q_isEmpty_def q_len_def is_queue_def)
qed

text \<open>
  C8. For every LinkedStack and every LinkedQueue, in any state, \<^verbatim>\<open>pop\<close> and \<^verbatim>\<open>peek\<close> raise
  \<^verbatim>\<open>KeyError\<close> (EmptyCollection) if and only if the collection is empty (\<^verbatim>\<open>isEmpty()\<close>: its
  size is 0); a \<^verbatim>\<open>pop\<close> that raises, whatever it raises, leaves the state as it was, and
  \<^verbatim>\<open>peek\<close> never changes the state; a freshly constructed collection is empty, and so is
  one drained by as many pops as items were pushed or added.
\<close>

theorem empty_error_no_mutation:
  "(fst (s_pop s) = Inl KeyError \<longleftrightarrow> s_isEmpty s) \<and>
   (fst (s_peek s) = Inl KeyError \<longleftrightarrow> s_isEmpty s) \<and>
   (fst (q_pop q) = Inl KeyError \<longleftrightarrow> q_isEmpty q) \<and>
   (fst (q_peek q) = Inl KeyError \<longleftrightarrow> q_isEmpty q) \<and>
   (\<forall>e. fst (s_pop s) = Inl e \<longrightarrow> snd (s_pop s) = s) \<and>
   (\<forall>e. fst (q_pop q) = Inl e \<longrightarrow> snd (q_pop q) = q) \<and>
   snd (s_peek s) = s \<and> snd (q_peek q) = q \<and>
   s_isEmpty LinkedStack_new \<and> q_isEmpty LinkedQueue_new \<and>
   s_isEmpty (snd (s_pop_n (length ps) (push_all LinkedStack_new ps))) \<and>
   q_isEmpty (snd (q_pop_n (length es) (snd (add_all q_add LinkedQueue_new es))))"
proof (intro conjI)
  show "fst (s_pop s) = Inl KeyError \<longleftrightarrow> s_isEmpty s"
    by (simp add: s_pop_def split: option.splits)
  show "fst (s_peek s) = Inl KeyError \<longleftrightarrow> s_isEmpty s"
    by (simp add: s_peek_def split: option.splits)
  show "fst (q_pop q) = Inl KeyError \<longleftrightarrow> q_isEmpty q"
    by (simp add: q_pop_def deref_def Let_def split: option.splits)
  show "fst (q_peek q) = Inl KeyError \<longleftrightarrow> q_isEmpty q"
    by (simp add: q_peek_def deref_def split: option.splits)
  show "\<forall>e. fst (s_pop s) = Inl e \<longrightarrow> snd (s_pop s) = s"
    by (simp add: s_pop_def split: option.splits)
  show "\<forall>e. fst (q_pop q) = Inl e \<longrightarrow> snd (q_pop q) = q"
    by (simp add: q_pop_def deref_def Let_def split: option.splits)
  show "snd (s_peek s) = s"
    by (simp add: s_peek_def split: option.splits)
  show "snd (q_peek q) = q"
    by (simp add: q_peek_def deref_def split: option.splits)
  show "s_isEmpty LinkedStack_new"
    by (simp add: s_isEmpty_def s_len_def LinkedStack_new_def)
  show "q_isEmpty LinkedQueue_new"
    by (simp add: q_isEmpty_def q_len_def LinkedQueue_new_def)
  show "s_isEmpty (snd (s_pop_n (length ps) (push_all LinkedStack_new ps)))"
    by (rule s_pop_n_drained)
  show "q_isEmpty (snd (q_pop_n (length es) (snd (add_all q_add LinkedQueue_new es))))"
    by (rule q_pop_n_drained)
qed

theorem empty_error_no_mutation_witness:
  "s_isEmpty (LinkedStack_new :: nat linked_stack) \<and>
   fst (s_pop (LinkedStack_new :: nat linked_stack)) = Inl KeyError \<and>
   snd (s_pop (LinkedStack_new :: nat linked_stack)) = LinkedStack_new \<and>
   fst (s_peek (LinkedStack_new :: nat linked_stack)) = Inl KeyError \<and>
   q_isEmpty (LinkedQueue_new :: nat linked_queue) \<and>
   fst (q_pop (LinkedQueue_new :: nat linked_queue)) = Inl KeyError \<and>
   snd (q_pop (LinkedQueue_new :: nat linked_queue)) = LinkedQueue_new \<and>
   fst (q_peek (LinkedQueue_new :: nat linked_queue)) = Inl KeyError \<and>
   \<not> s_isEmpty example_stack \<and> fst (s_pop example_stack) = Inr 3 \<and>
   fst (s_peek example_stack) = Inr 3 \<and> snd (s_peek example_stack) = example_stack \<and>
   \<not> q_isEmpty example_queue \<and> fst (q_pop example_queue) = Inr 1 \<and>
   fst (q_peek example_queue) = Inr 1 \<and> snd (q_peek example_queue) = example_queue"
proof -
  note new = empty_error_no_mutation
    [of "LinkedStack_new :: nat linked_stack" "LinkedQueue_new :: nat linked_queue"
        "[] :: nat list" "[] :: nat list"]
  note ex = empty_error_no_mutation
    [of example_stack example_queue "[] :: nat list" "[] :: nat list"]
  have s: "fst (s_pop example_stack) = Inr 3" "fst (s_peek example_stack) = Inr 3" by code_simp+
  have q: "fst (q_pop example_queue) = Inr 1" "fst (q_peek example_queue) = Inr 1" by code_simp+
  from s ex have "\<not> s_isEmpty example_stack" by auto
  moreover from q ex have "\<not> q_isEmpty example_queue" by auto
  ultimately show ?thesis using new ex s q by auto
qed

section \<open>LinkedQueue.remove and its consequences: proofs\<close>

lemma q_remove_front_is_pop:
  assumes "is_queue q as" "as \<noteq> []"
  shows "q_remove q 0 = q_pop q"
proof -
  from assms obtain a bs where as: "as = a # bs" by (cases as) auto
  with assms obtain c where c: "q_front q = Some a" "q_store q a = Some c"
      "path (q_store q) (n_next c) bs" "q_size q = Suc (length bs)"
    by (auto simp: is_queue_def split: option.splits)
  have "n_next c = None \<longleftrightarrow> bs = []" using c(3) by (cases bs) auto
  with c show ?thesis
    by (simp add: q_remove_def q_pop_def q_isEmpty_def q_len_def deref_def Let_def)
qed

lemma probe_loop_path:
  "path h p as \<Longrightarrow> k < length as \<Longrightarrow> probe_loop h p (int (Suc k)) = Inr (Some (as ! k))"
proof (induction k arbitrary: p as)
  case 0
  then show ?case by (cases as) (simp_all add: probe_loop.simps)
next
  case (Suc k)
  then obtain a bs c where as: "as = a # bs" "p = Some a" "h a = Some c" "path h (n_next c) bs"
    by (cases as) (auto split: option.splits)
  with Suc.prems have "k < length bs" by simp
  from Suc.IH [OF as(4) this] as show ?case
    by (subst probe_loop.simps) (simp add: deref_def)
qed

lemma path_nth: "path h p as \<Longrightarrow> i < length as \<Longrightarrow>
  \<exists>c. h (as ! i) = Some c \<and> n_next c = (if Suc i < length as then Some (as ! Suc i) else None)"
proof (induction as arbitrary: p i)
  case Nil
  then show ?case by simp
next
  case (Cons a as)
  then obtain c where c: "h a = Some c" "path h (n_next c) as" by (auto split: option.splits)
  show ?case
  proof (cases i)
    case 0
    with c show ?thesis by (cases as) auto
  next
    case (Suc j)
    with Cons.prems have "j < length as" by simp
    from Cons.IH [OF c(2) this] Suc show ?thesis by auto
  qed
qed

lemma path_remove_nth:
  "path h p as \<Longrightarrow> distinct as \<Longrightarrow> i < length as \<Longrightarrow> 0 < i \<Longrightarrow>
   h (as ! (i - 1)) = Some pc \<Longrightarrow> h (as ! i) = Some tc \<Longrightarrow>
   path (h(as ! (i - 1) \<mapsto> pc\<lparr>n_next := n_next tc\<rparr>)) p (take i as @ drop (Suc i) as)"
proof (induction as arbitrary: p i)
  case Nil
  then show ?case by simp
next
  case (Cons a as)
  from Cons.prems obtain c where c: "p = Some a" "h a = Some c" "path h (n_next c) as"
    by (auto split: option.splits)
  show ?case
  proof (cases "i = 1")
    case True
    with Cons.prems obtain t bs where as: "as = t # bs" by (cases as) auto
    with c Cons.prems True have t: "h t = Some tc" "path h (n_next tc) bs" "pc = c"
      by (auto split: option.splits)
    from Cons.prems as have "a \<notin> set bs" by simp
    then have "path (h(a \<mapsto> pc\<lparr>n_next := n_next tc\<rparr>)) (n_next tc) bs"
      using t(2) by (simp add: path_upd)
    then have "path (h(a \<mapsto> pc\<lparr>n_next := n_next tc\<rparr>)) (Some a) (a # bs)"
      by simp
    moreover have "take i (a # as) @ drop (Suc i) (a # as) = a # bs" "(a # as) ! (i - 1) = a"
      using True as by simp_all
    ultimately show ?thesis using c(1) by (simp only:)
  next
    case False
    with Cons.prems obtain j where j: "i = Suc j" "0 < j" "j < length as"
      by (cases i) auto
    with Cons.prems have neq: "as ! (j - 1) \<noteq> a" by (auto simp: in_set_conv_nth)
    from j Cons.prems have pc: "h (as ! (j - 1)) = Some pc" "h (as ! j) = Some tc"
      by (simp_all add: nth_Cons')
    from Cons.prems have "distinct as" by simp
    from Cons.IH [OF c(3) this j(3) j(2) pc]
    have "path (h(as ! (j - 1) \<mapsto> pc\<lparr>n_next := n_next tc\<rparr>)) (n_next c)
            (take j as @ drop (Suc j) as)" .
    with c neq
    have "path (h(as ! (j - 1) \<mapsto> pc\<lparr>n_next := n_next tc\<rparr>)) (Some a)
            (a # take j as @ drop (Suc j) as)"
      by simp
    moreover have "take i (a # as) @ drop (Suc i) (a # as) = a # take j as @ drop (Suc j) as"
        "(a # as) ! (i - 1) = as ! (j - 1)"
      using j by (simp_all add: nth_Cons')
    ultimately show ?thesis using c(1) by (simp only:)
  qed
qed


lemma q_remove_nth:
  assumes q: "is_queue q as" and i: "0 < i" "i < length as"
  shows "\<exists>pc tc. q_store q (as ! (i - 1)) = Some pc \<and> q_store q (as ! i) = Some tc \<and>
           q_remove q (int i) =
             (Inr (n_data tc),
              q\<lparr>q_store := (q_store q)(as ! (i - 1) \<mapsto> pc\<lparr>n_next := n_next tc\<rparr>),
                  q_size := q_size q - 1\<rparr>)"
proof -
  let ?h = "q_store q"
  from q have p: "path ?h (q_front q) as" and sz: "q_size q = length as"
    by (simp_all add: is_queue_def)
  from i have i1: "i - 1 < length as" "Suc (i - 1) = i" by simp_all
  from path_nth [OF p i1(1)] i i1(2) obtain pc where
    pc: "?h (as ! (i - 1)) = Some pc" "n_next pc = Some (as ! i)" by auto
  from path_nth [OF p i(2)] obtain tc where tc: "?h (as ! i) = Some tc" by auto
  from probe_loop_path [OF p i1(1)] i1(2)
  have pl: "probe_loop ?h (q_front q) (int i) = Inr (Some (as ! (i - 1)))" by simp
  from i sz have ne: "q_size q - 1 \<noteq> 0" by simp
  have "q_remove q (int i) =
          (Inr (n_data tc),
           q\<lparr>q_store := ?h(as ! (i - 1) \<mapsto> pc\<lparr>n_next := n_next tc\<rparr>),
               q_size := q_size q - 1\<rparr>)"
    using i sz pl pc tc ne
    by (simp add: q_remove_def q_len_def q_isEmpty_def deref_def Let_def)
  with pc tc show ?thesis by blast
qed

lemma datas_next_upd:
  "h p = Some pc \<Longrightarrow> datas (h(p \<mapsto> pc\<lparr>n_next := x\<rparr>)) bs = datas h bs"
  by (auto simp: datas_def)

lemma q_remove_inner:
  assumes q: "is_queue q as" and i: "0 < i" "Suc i < length as"
  shows "\<exists>q'. q_remove q (int i) = (Inr (datas (q_store q) as ! i), q') \<and>
           is_queue q' (take i as @ drop (Suc i) as) \<and>
           datas (q_store q') (take i as @ drop (Suc i) as) =
             take i (datas (q_store q) as) @ drop (Suc i) (datas (q_store q) as)"
proof -
  let ?h = "q_store q"
  let ?bs = "take i as @ drop (Suc i) as"
  from i have il: "i < length as" by simp
  from q_remove_nth [OF q i(1) il] obtain pc tc where
    pc: "?h (as ! (i - 1)) = Some pc" and tc: "?h (as ! i) = Some tc" and
    rm: "q_remove q (int i) =
           (Inr (n_data tc),
            q\<lparr>q_store := ?h(as ! (i - 1) \<mapsto> pc\<lparr>n_next := n_next tc\<rparr>),
                q_size := q_size q - 1\<rparr>)" by blast
  let ?h' = "?h(as ! (i - 1) \<mapsto> pc\<lparr>n_next := n_next tc\<rparr>)"
  let ?q' = "q\<lparr>q_store := ?h', q_size := q_size q - 1\<rparr>"
  from q have p: "path ?h (q_front q) as" and d: "distinct as" and sz: "q_size q = length as"
    and r: "q_rear q = Some (last as)" and fr: "list_all (\<lambda>a. a < q_fresh q) as"
    using il by (auto simp: is_queue_def)
  have p': "path ?h' (q_front q) ?bs"
    by (rule path_remove_nth [OF p d il i(1) pc tc])
  have d': "distinct ?bs"
    using d by (metis distinct_append id_take_nth_drop [OF il] disjoint_insert(1)
        list.simps(15) distinct.simps(2) inf_sup_aci(1))
  have l': "length ?bs = length as - 1" using i by simp
  have ne: "drop (Suc i) as \<noteq> []" using i by simp
  then have last': "last ?bs = last as" using i by simp
  have fr': "list_all (\<lambda>a. a < q_fresh q) ?bs"
    using fr by (auto simp: list_all_iff dest: in_set_takeD in_set_dropD)
  have isq: "is_queue ?q' ?bs"
    using p' d' l' last' fr' sz r ne by (simp add: is_queue_def)
  have dat: "datas ?h' ?bs = take i (datas ?h as) @ drop (Suc i) (datas ?h as)"
    using datas_next_upd [of ?h "as ! (i - 1)" pc "n_next tc" ?bs] pc
    by (simp add: datas_def take_map drop_map)
  have "datas ?h as ! i = n_data tc" using il tc by (simp add: datas_def)
  with rm isq dat show ?thesis by simp
qed

lemma q_remove_last_stale:
  assumes q: "is_queue q as" and n: "2 \<le> length as"
  shows "\<exists>q'. q_remove q (int (length as - 1)) = (Inr (last (datas (q_store q) as)), q') \<and>
           path (q_store q') (q_front q') (butlast as) \<and>
           q_rear q' = Some (last as) \<and> last as \<notin> set (butlast as) \<and>
           q_size q' = length as - 1 \<and> \<not> queue_inv q'"
proof -
  let ?h = "q_store q"
  let ?i = "length as - 1"
  from n have i: "0 < ?i" "?i < length as" by simp_all
  from q_remove_nth [OF q i] obtain pc tc where
    pc: "?h (as ! (?i - 1)) = Some pc" and tc: "?h (as ! ?i) = Some tc" and
    rm: "q_remove q (int ?i) =
           (Inr (n_data tc),
            q\<lparr>q_store := ?h(as ! (?i - 1) \<mapsto> pc\<lparr>n_next := n_next tc\<rparr>),
                q_size := q_size q - 1\<rparr>)" by blast
  let ?h' = "?h(as ! (?i - 1) \<mapsto> pc\<lparr>n_next := n_next tc\<rparr>)"
  let ?q' = "q\<lparr>q_store := ?h', q_size := q_size q - 1\<rparr>"
  from q n have p: "path ?h (q_front q) as" and d: "distinct as" and sz: "q_size q = length as"
    and r: "q_rear q = Some (last as)" and ne: "as \<noteq> []"
    by (auto simp: is_queue_def)
  have bl: "take ?i as @ drop (Suc ?i) as = butlast as"
    using i by (simp add: butlast_conv_take)
  have p': "path ?h' (q_front q) (butlast as)"
    using path_remove_nth [OF p d i(2) i(1) pc tc] bl by simp
  have nin: "last as \<notin> set (butlast as)"
    using d ne by (metis append_butlast_last_id distinct_append disjoint_insert(1)
        list.simps(15) empty_set Int_commute)
  have bne: "butlast as \<noteq> []" using n by (cases as rule: rev_cases) auto
  have ninv: "\<not> queue_inv ?q'"
  proof
    assume "queue_inv ?q'"
    then obtain bs where bs: "is_queue ?q' bs" by (auto simp: queue_inv_def)
    then have "path ?h' (q_front q) bs" by (simp add: is_queue_def)
    from path_unique [OF this p'] have "bs = butlast as" .
    with bs bne r have "last as = last (butlast as)" by (simp add: is_queue_def)
    with nin bne show False using last_in_set by metis
  qed
  have "last (datas ?h as) = n_data tc"
    using ne tc i by (simp add: datas_def last_map last_conv_nth)
  with rm p' r nin sz ninv show ?thesis by simp
qed


lemma coll_eq_counted:
  assumes "iter a = Some xs" "iter b = Some ys" "len a = length xs" "len b = length ys"
    and "i = j \<longrightarrow> a = b"
  shows "coll_eq (i, a) (j, b) =
           Some (Inr (type_of a = type_of b \<and> len a = len b \<and> xs = ys))"
proof (cases "i = j")
  case True
  with assms show ?thesis by (auto simp: coll_eq_def)
next
  case False
  show ?thesis
  proof (cases "type_of a \<noteq> type_of b \<or> len a \<noteq> len b")
    case True
    with False show ?thesis by (auto simp: coll_eq_def)
  next
    case False
    with assms have "length xs = length ys" by simp
    from eq_loop_same_length [OF this] False assms \<open>i \<noteq> j\<close> show ?thesis
      by (simp add: coll_eq_def)
  qed
qed

lemma stack_counted: "stack_inv s \<Longrightarrow> len (Stack s) = length (s_iter s)"
  by (simp add: stack_inv_def s_len_def s_iter_chain)

lemma queue_counted:
  "is_queue q as \<Longrightarrow> iter (Queue q) = Some (datas (q_store q) as) \<and>
     len (Queue q) = length (datas (q_store q) as)"
  by (auto simp: is_queue_def q_iter_def iter_from_path q_len_def) (simp add: datas_def)

lemma coll_eq_same_adds:
  "coll_eq (i, Queue (snd (add_all q_add LinkedQueue_new xs)))
           (j, Queue (snd (add_all q_add LinkedQueue_new xs))) = Some (Inr True) \<and>
   coll_eq (i, Stack (snd (add_all s_add LinkedStack_new xs)))
           (j, Stack (snd (add_all s_add LinkedStack_new xs))) = Some (Inr True)"
proof -
  from q_add_all_is_queue [OF is_queue_new, of xs] obtain q' bs where
    "add_all q_add LinkedQueue_new xs = (Inr (), q')" "is_queue q' ([] @ bs)" by blast
  then have "iter (Queue (snd (add_all q_add LinkedQueue_new xs))) \<noteq> None"
    using queue_counted [of q' bs] by simp
  then show ?thesis
    by (auto simp: coll_eq_def eq_loop_same_length)
qed

text \<open>
  C1 (the code at the failing input). After \<^verbatim>\<open>add(1); add(2)\<close> the queue satisfies its
  invariant. \<^verbatim>\<open>remove(1)\<close> returns 2 and leaves a chain of one node, at address 0, but
  \<^verbatim>\<open>_rear\<close> still refers to the removed node at address 1: the invariant is lost. A
  following \<^verbatim>\<open>add(3)\<close> raises nothing, links the new node behind the removed one and counts
  it, so the size is 2 while iteration yields only 1. \<open>q_remove_last_stale\<close> shows the same
  for every queue of two or more items, \<open>q_remove_inner\<close> that removing before the last
  index keeps the invariant.
\<close>

theorem remove_last_leaves_rear_stale:
  "queue_inv example_queue \<and> q_len example_queue = 2 \<and>
   fst (q_remove example_queue 1) = Inr 2 \<and>
   q_len stale_queue = 1 \<and> q_iter stale_queue = Some [1] \<and>
   path (q_store stale_queue) (q_front stale_queue) [0] \<and>
   q_rear stale_queue = Some 1 \<and> \<not> queue_inv stale_queue \<and>
   fst (q_add stale_queue 3) = Inr () \<and>
   q_len lossy_queue = 2 \<and> q_iter lossy_queue = Some [1]"
proof -
  have isq: "is_queue example_queue [0, 1]" by code_simp
  then have inv: "queue_inv example_queue" by (auto simp: queue_inv_def)
  have p: "path (q_store stale_queue) (q_front stale_queue) [0]" by code_simp
  have r: "q_rear stale_queue = Some 1" by code_simp
  have ninv: "\<not> queue_inv stale_queue"
  proof
    assume "queue_inv stale_queue"
    then obtain bs where bs: "is_queue stale_queue bs" by (auto simp: queue_inv_def)
    then have "path (q_store stale_queue) (q_front stale_queue) bs" by (simp add: is_queue_def)
    from path_unique [OF this p] have "bs = [0]" .
    with bs r show False by (simp add: is_queue_def)
  qed
  have "q_len example_queue = 2" "fst (q_remove example_queue 1) = Inr 2"
    "q_len stale_queue = 1" "q_iter stale_queue = Some [1]"
    "fst (q_add stale_queue 3) = Inr ()" "q_len lossy_queue = 2" "q_iter lossy_queue = Some [1]"
    by code_simp+
  with inv p r ninv show ?thesis by simp
qed

text \<open>
  C4 (the code at the failing input). On the queue left by
  \<^verbatim>\<open>add(1); add(2); remove(1); add(3)\<close>, whose size is 2 and whose chain has one node,
  \<^verbatim>\<open>remove(0)\<close> and \<^verbatim>\<open>pop()\<close> return the same item, the same front and the same size, but
  \<^verbatim>\<open>pop\<close> resets \<^verbatim>\<open>_rear\<close> (it tests \<^verbatim>\<open>_front is None\<close>) and \<^verbatim>\<open>remove\<close> does not (it
  tests \<^verbatim>\<open>isEmpty()\<close>). On a queue that satisfies its invariant the two agree:
  \<open>q_remove_front_is_pop\<close>.
\<close>

theorem remove_front_differs_from_pop:
  "q_len lossy_queue = 2 \<and>
   fst (q_remove lossy_queue 0) = Inr 1 \<and> fst (q_pop lossy_queue) = Inr 1 \<and>
   q_front (snd (q_remove lossy_queue 0)) = None \<and> q_front (snd (q_pop lossy_queue)) = None \<and>
   q_len (snd (q_remove lossy_queue 0)) = 1 \<and> q_len (snd (q_pop lossy_queue)) = 1 \<and>
   q_rear (snd (q_remove lossy_queue 0)) = Some 2 \<and> q_rear (snd (q_pop lossy_queue)) = None \<and>
   q_remove lossy_queue 0 \<noteq> q_pop lossy_queue"
proof -
  have e: "q_len lossy_queue = 2"
    "fst (q_remove lossy_queue 0) = Inr 1" "fst (q_pop lossy_queue) = Inr 1"
    "q_front (snd (q_remove lossy_queue 0)) = None" "q_front (snd (q_pop lossy_queue)) = None"
    "q_len (snd (q_remove lossy_queue 0)) = 1" "q_len (snd (q_pop lossy_queue)) = 1"
    "q_rear (snd (q_remove lossy_queue 0)) = Some 2" "q_rear (snd (q_pop lossy_queue)) = None"
    by code_simp+
  then have "q_remove lossy_queue 0 \<noteq> q_pop lossy_queue" by auto
  with e show ?thesis by simp
qed

text \<open>
  C9 (the code at the failing input). The queue left by
  \<^verbatim>\<open>add(1); add(2); remove(1); add(3)\<close> and the queue left by \<^verbatim>\<open>add(1); add(5)\<close> have the
  same kind and the same size, and iterate as \<open>[1]\<close> and \<open>[1, 5]\<close>. \<^verbatim>\<open>==\<close> with the first
  as \<^verbatim>\<open>self\<close> returns \<^verbatim>\<open>True\<close>; with the second as \<^verbatim>\<open>self\<close> it raises \<^verbatim>\<open>StopIteration\<close>.
  Where each size is the number of items iterated, \<^verbatim>\<open>==\<close> is as the claim says:
  \<open>coll_eq_counted\<close>, and \<open>coll_eq_same_adds\<close> for collections built by the same adds.
\<close>

theorem eq_ignores_uncounted_items:
  "type_of (Queue lossy_queue) = type_of (Queue other_queue) \<and>
   len (Queue lossy_queue) = 2 \<and> len (Queue other_queue) = 2 \<and>
   iter (Queue lossy_queue) = Some [1] \<and> iter (Queue other_queue) = Some [1, 5] \<and>
   coll_eq (0, Queue lossy_queue) (1, Queue other_queue) = Some (Inr True) \<and>
   coll_eq (1, Queue other_queue) (0, Queue lossy_queue) = Some (Inl StopIteration)"
  by code_simp

theorem eq_ignores_uncounted_items_witness:
  "coll_eq (0, Queue lossy_queue) (1, Queue other_queue) = Some (Inr True) \<and>
   iter (Queue lossy_queue) \<noteq> iter (Queue other_queue) \<and>
   coll_eq (1, Queue other_queue) (0, Queue lossy_queue) \<noteq>
     coll_eq (0, Queue lossy_queue) (1, Queue other_queue)"
  using eq_ignores_uncounted_items by simp


end
